theory Spec2Isabelle
  imports Main "HOL-Library.AList"
begin

section \<open>Python strings\<close>

text \<open>
  A Python \<^verbatim>\<open>str\<close> is a sequence of Unicode code points, and \<^verbatim>\<open>len\<close> counts code points.
  A string is therefore a list of natural numbers; \<open>u\<close> turns an ASCII literal into one.
\<close>

type_synonym ustr = "nat list"

definition u :: "string \<Rightarrow> ustr" where
  "u s = map of_char s"

text \<open>
  Python's character classes and case mapping come from the Unicode character database of
  the interpreter, which is not part of the repository. They are written out for ASCII and
  for the CJK Unified Ideographs block (U+4E00 to U+9FFF: letters without case, no digits);
  for every other code point they are taken from a parameter \<open>U\<close>.
\<close>

record unicode =
  uc_isdigit :: "nat \<Rightarrow> bool"
  uc_isdecimal :: "nat \<Rightarrow> bool"
  uc_isupper :: "nat \<Rightarrow> bool"
  uc_lower :: "ustr \<Rightarrow> ustr"

definition tabled :: "nat \<Rightarrow> bool" where
  "tabled c = (c < 128 \<or> (19968 \<le> c \<and> c \<le> 40959))"

definition ascii_digit :: "nat \<Rightarrow> bool" where
  "ascii_digit c = (48 \<le> c \<and> c \<le> 57)"

definition ascii_upper :: "nat \<Rightarrow> bool" where
  "ascii_upper c = (65 \<le> c \<and> c \<le> 90)"

text \<open>\<^verbatim>\<open>ch.isdigit()\<close> for a one-character string.\<close>

definition isdigit :: "unicode \<Rightarrow> nat \<Rightarrow> bool" where
  "isdigit U c = (if tabled c then ascii_digit c else uc_isdigit U c)"

text \<open>The class \<^verbatim>\<open>\d\<close> of the \<^verbatim>\<open>re\<close> module on \<^verbatim>\<open>str\<close> patterns (decimal digits).\<close>

definition isdecimal :: "unicode \<Rightarrow> nat \<Rightarrow> bool" where
  "isdecimal U c = (if tabled c then ascii_digit c else uc_isdecimal U c)"

text \<open>\<^verbatim>\<open>ch.isupper()\<close> for a one-character string.\<close>

definition isupper :: "unicode \<Rightarrow> nat \<Rightarrow> bool" where
  "isupper U c = (if tabled c then ascii_upper c else uc_isupper U c)"

text \<open>\<^verbatim>\<open>s.isascii()\<close>.\<close>

definition isascii :: "ustr \<Rightarrow> bool" where
  "isascii s = list_all (\<lambda>c. c < 128) s"

text \<open>
  \<^verbatim>\<open>s.lower()\<close>. The Unicode mapping depends on the context of a character (final sigma),
  so outside the tabled code points the parameter maps the whole string.
\<close>

definition lower :: "unicode \<Rightarrow> ustr \<Rightarrow> ustr" where
  "lower U s =
     (if list_all tabled s then map (\<lambda>c. if ascii_upper c then c + 32 else c) s
      else uc_lower U s)"

text \<open>
  White space as \<^verbatim>\<open>str.strip()\<close>, \<^verbatim>\<open>str.isspace()\<close> and the class \<^verbatim>\<open>\s\<close> see it.
\<close>

definition isspace :: "nat \<Rightarrow> bool" where
  "isspace c =
     (c \<in> set [9, 10, 11, 12, 13, 28, 29, 30, 31, 32, 133, 160, 5760,
                   8232, 8233, 8239, 8287, 12288]
      \<or> (8192 \<le> c \<and> c \<le> 8202))"

definition strip :: "ustr \<Rightarrow> ustr" where
  "strip s = rev (dropWhile isspace (rev (dropWhile isspace s)))"

text \<open>\<^verbatim>\<open>s.startswith(p)\<close>.\<close>

fun startswith :: "'a list \<Rightarrow> 'a list \<Rightarrow> bool" where
  "startswith [] s = True"
| "startswith (p # ps) [] = False"
| "startswith (p # ps) (c # cs) = (p = c \<and> startswith ps cs)"

text \<open>
  \<^verbatim>\<open>sep in s\<close> and \<^verbatim>\<open>s.split(sep, 1)\<close> for a non-empty separator: \<open>None\<close> when the
  separator does not occur, otherwise the text before and after its first occurrence.
\<close>

fun split_once :: "ustr \<Rightarrow> ustr \<Rightarrow> (ustr \<times> ustr) option" where
  "split_once sep [] = (if startswith sep [] then Some ([], []) else None)"
| "split_once sep (c # cs) =
     (if startswith sep (c # cs) then Some ([], drop (length sep) (c # cs))
      else (case split_once sep cs of
              None \<Rightarrow> None
            | Some (a, b) \<Rightarrow> Some (c # a, b)))"

text \<open>
  \<^verbatim>\<open>s.replace(old, new)\<close>: every occurrence from the left, without overlap. An empty
  \<^verbatim>\<open>old\<close> matches before every character and at the end. For a non-empty \<^verbatim>\<open>old\<close>
  found at the head of \<open>c # cs\<close>, the scan goes on after it, that is
  \<open>length old - 1\<close> characters into \<open>cs\<close>.
\<close>

fun replace_from :: "ustr \<Rightarrow> ustr \<Rightarrow> ustr \<Rightarrow> ustr" where
  "replace_from old new [] = []"
| "replace_from old new (c # cs) =
     (if startswith old (c # cs)
      then new @ replace_from old new (drop (length old - 1) cs)
      else c # replace_from old new cs)"

definition replace :: "ustr \<Rightarrow> ustr \<Rightarrow> ustr \<Rightarrow> ustr" where
  "replace s old new =
     (if old = [] then new @ concat (map (\<lambda>c. c # new) s)
      else replace_from old new s)"

text \<open>
  \<^verbatim>\<open>s.splitlines()\<close>: the line boundaries are LF, VT, FF, CR, CR LF, FS, GS, RS, NEL,
  LS and PS; the boundaries are dropped and a final boundary opens no empty line.
\<close>

definition linebreak :: "nat \<Rightarrow> bool" where
  "linebreak c = (c \<in> set [10, 11, 12, 13, 28, 29, 30, 133, 8232, 8233])"

fun splitlines_from :: "ustr \<Rightarrow> ustr \<Rightarrow> ustr list" where
  "splitlines_from cur [] = (if cur = [] then [] else [cur])"
| "splitlines_from cur [c] =
     (if linebreak c then [cur] else [cur @ [c]])"
| "splitlines_from cur (c # d # cs) =
     (if c = 13 \<and> d = 10 then cur # splitlines_from [] cs
      else if linebreak c then cur # splitlines_from [] (d # cs)
      else splitlines_from (cur @ [c]) (d # cs))"

definition splitlines :: "ustr \<Rightarrow> ustr list" where
  "splitlines s = splitlines_from [] s"

text \<open>\<^verbatim>\<open>str(n)\<close> for a non-negative integer: its decimal digits.\<close>

fun str_of_nat :: "nat \<Rightarrow> ustr" where
  "str_of_nat n =
     (if n < 10 then [48 + n] else str_of_nat (n div 10) @ [48 + n mod 10])"

text \<open>\<^verbatim>\<open>sep.join(parts)\<close>.\<close>

fun join :: "ustr \<Rightarrow> ustr list \<Rightarrow> ustr" where
  "join sep [] = []"
| "join sep [p] = p"
| "join sep (p # q # ps) = p @ sep @ join sep (q # ps)"

section \<open>Markers and regular-expression search\<close>

definition START_MARK :: ustr where "START_MARK = u ''<<<START>>>''"
definition END_MARK :: ustr where "END_MARK = u ''<<<END>>>''"
definition TITLE_START :: ustr where "TITLE_START = u ''<<<TITLE_START>>>''"
definition TITLE_END :: ustr where "TITLE_END = u ''<<<TITLE_END>>>''"
definition GLOSSARY_START :: ustr where "GLOSSARY_START = u ''<<<GLOSSARY_START>>>''"
definition GLOSSARY_END :: ustr where "GLOSSARY_END = u ''<<<GLOSSARY_END>>>''"

text \<open>
  The group \<^verbatim>\<open>(.*?)\<close> followed by the literal \<open>en\<close>, matched at the head of \<open>s\<close> with
  \<^verbatim>\<open>re.S\<close> (the dot matches every character): the shortest prefix after which \<open>en\<close>
  follows.
\<close>

fun lazy_until :: "ustr \<Rightarrow> ustr \<Rightarrow> ustr option" where
  "lazy_until en [] = (if startswith en [] then Some [] else None)"
| "lazy_until en (c # cs) =
     (if startswith en (c # cs) then Some []
      else map_option ((#) c) (lazy_until en cs))"

text \<open>
  \<^verbatim>\<open>re.search(re.escape(st) + r"(.*?)" + re.escape(en), text, re.S)\<close>: the match is
  tried at every position from the left; the result is group 1 of the first match.
\<close>

definition match_here :: "ustr \<Rightarrow> ustr \<Rightarrow> ustr \<Rightarrow> ustr option" where
  "match_here st en s =
     (if startswith st s then lazy_until en (drop (length st) s) else None)"

fun search_marked :: "ustr \<Rightarrow> ustr \<Rightarrow> ustr \<Rightarrow> ustr option" where
  "search_marked st en [] = match_here st en []"
| "search_marked st en (c # cs) =
     (case match_here st en (c # cs) of
        Some g \<Rightarrow> Some g
      | None \<Rightarrow> search_marked st en cs)"

section \<open>The translator module\<close>

text \<open>
  A \<^verbatim>\<open>dict\<close> keeps its keys in insertion order, and assigning to a key that is present
  keeps the key's position: an association list under \<^const>\<open>AList.update\<close>. An absent
  glossary (\<^verbatim>\<open>None\<close>) is treated by every use in the module as the empty dictionary.
\<close>

type_synonym dict = "(ustr \<times> ustr) list"

definition prune_marked :: "ustr \<Rightarrow> ustr \<Rightarrow> ustr \<Rightarrow> ustr" where
  "prune_marked text st en =
     (case search_marked st en text of
        Some g \<Rightarrow> strip g
      | None \<Rightarrow> strip text)"

fun apply_glossary_items :: "ustr \<Rightarrow> dict \<Rightarrow> ustr" where
  "apply_glossary_items text [] = text"
| "apply_glossary_items text ((src, dst) # items) =
     apply_glossary_items (replace text src dst) items"

definition apply_glossary :: "ustr \<Rightarrow> dict \<Rightarrow> ustr" where
  "apply_glossary text glossary =
     (if glossary = [] then text else apply_glossary_items text glossary)"

definition boundary_char :: "nat \<Rightarrow> bool" where
  "boundary_char ch = (ch \<in> set (u ''.!?''))"

function split_loop :: "unicode \<Rightarrow> ustr \<Rightarrow> nat \<Rightarrow> ustr \<Rightarrow> ustr list \<Rightarrow> ustr list" where
  "split_loop U text i buffer sentences =
     (if i < length text then
        (let ch = text ! i; buffer = buffer @ [ch] in
         if boundary_char ch then
           (if i + 1 < length text \<and> boundary_char (text ! (i + 1))
            then split_loop U text (i + 1) buffer sentences
            else if ch = 46 \<and> 0 < i \<and> isdigit U (text ! (i - 1))
                    \<and> i + 1 < length text \<and> isdigit U (text ! (i + 1))
            then split_loop U text (i + 1) buffer sentences
            else split_loop U text (i + 1) [] (sentences @ [strip buffer]))
         else split_loop U text (i + 1) buffer sentences)
      else (if strip buffer \<noteq> [] then sentences @ [strip buffer] else sentences))"
  by pat_completeness auto
termination
  by (relation "measure (\<lambda>(U, text, i, buffer, sentences). length text - i)") auto

declare split_loop.simps [simp del]

definition split_sentences :: "unicode \<Rightarrow> ustr \<Rightarrow> ustr list" where
  "split_sentences U text = split_loop U text 0 [] []"

text \<open>
  The loop over the lines of the glossary block; every \<^verbatim>\<open>continue\<close> of the source is a
  branch that goes on with the unchanged \<open>updates\<close>.
\<close>

fun glossary_lines :: "unicode \<Rightarrow> dict \<Rightarrow> ustr list \<Rightarrow> dict \<Rightarrow> dict" where
  "glossary_lines U glossary [] updates = updates"
| "glossary_lines U glossary (line # lines) updates =
     (case split_once (u ''->'') line of
        None \<Rightarrow> glossary_lines U glossary lines updates
      | Some (a, b) \<Rightarrow>
          (let src = strip a; dst = strip b in
           if \<not> (src \<noteq> [] \<and> dst \<noteq> []) \<or> lower U src = lower U dst
           then glossary_lines U glossary lines updates
           else if glossary \<noteq> [] \<and> src \<in> set (map fst glossary)
           then glossary_lines U glossary lines updates
           else if length src \<le> 1
           then glossary_lines U glossary lines updates
           else if \<not> (isupper U (hd src) \<or> \<not> isascii src)
           then glossary_lines U glossary lines updates
           else glossary_lines U glossary lines (AList.update src dst updates)))"

definition parse_translation_and_glossary ::
  "unicode \<Rightarrow> ustr \<Rightarrow> dict \<Rightarrow> ustr \<Rightarrow> ustr \<Rightarrow> ustr \<times> dict" where
  "parse_translation_and_glossary U text glossary start_mark end_mark =
     (let translation = prune_marked text start_mark end_mark;
          glossary_block = search_marked GLOSSARY_START GLOSSARY_END text;
          updates = (case glossary_block of
                       Some block \<Rightarrow> glossary_lines U glossary (splitlines block) []
                     | None \<Rightarrow> [])
      in (translation, updates))"

section \<open>The environment of a run\<close>

text \<open>
  Exceptions of the module: the \<^verbatim>\<open>KeyError\<close> of a dictionary lookup and the
  \<^verbatim>\<open>RuntimeError\<close> that \<^verbatim>\<open>translate_with_ollama\<close> raises for a failed request.
\<close>

datatype error = KeyError nat | RuntimeError

text \<open>
  What the module does not own is the environment \<open>E\<close> of a run. The two
  \<^verbatim>\<open>threading.Event\<close> flags are set and cleared by other threads: a flag is a function
  from the number of polls made so far to the value that poll reads, or \<open>None\<close> when no
  event is passed. The Ollama server answers the \<open>n\<close>-th request of the run: \<open>None\<close> is a
  \<^verbatim>\<open>requests.RequestException\<close>, otherwise the \<^verbatim>\<open>response\<close> field of the JSON body or,
  when streaming, the decoded non-empty lines as pairs of the \<^verbatim>\<open>response\<close> delta and the
  \<^verbatim>\<open>done\<close> flag. A request fails as a whole: a stream that breaks after some lines, and a
  line that is not JSON, are outside the model. The model name, the host and the options
  only travel to the server and are part of its answer function. \<open>pipeline_translate\<close> is
  the \<^verbatim>\<open>transformers\<close> pipeline, taken to answer every call.
\<close>

record env =
  ucd :: unicode
  cancel_event :: "(nat \<Rightarrow> bool) option"
  pause_event :: "(nat \<Rightarrow> bool) option"
  generate :: "nat \<Rightarrow> ustr \<Rightarrow> ustr option"
  generate_stream :: "nat \<Rightarrow> ustr \<Rightarrow> (ustr \<times> bool) list option"
  pipeline_translate :: "nat \<Rightarrow> ustr \<Rightarrow> ustr"

text \<open>
  One call of \<^verbatim>\<open>translate_sentences\<close> made by \<^verbatim>\<open>translate_with_context\<close>: the window
  start, the number of requests made before the call, the list of sentences passed, the
  triple returned and the invocations of the caller's token callback made during the
  call.
\<close>

record batch =
  b_start :: nat
  b_requests :: nat
  b_sents :: "ustr list"
  b_outs :: "ustr list"
  b_updates :: dict
  b_raws :: "ustr list"
  b_tokens :: "(nat \<times> ustr) list"

text \<open>
  The effects of a run: the polls made, the requests made to a backend with the sentence
  each of them carries (\<open>inputs\<close>) and, for the server, its prompt, the arguments the
  caller's callbacks received (the progress fraction as the pair of \<open>processed\<close> and
  \<open>total\<close>), and the calls of \<^verbatim>\<open>translate_sentences\<close>.
\<close>

record world =
  clock :: nat
  requests :: nat
  inputs :: "ustr list"
  prompts :: "ustr list"
  tokens :: "(nat \<times> ustr) list"
  progress :: "(nat \<times> nat) list"
  batches :: "batch list"

definition fresh :: world where
  "fresh = \<lparr>clock = 0, requests = 0, inputs = [], prompts = [], tokens = [],
            progress = [], batches = []\<rparr>"

text \<open>\<^verbatim>\<open>cancel_event and cancel_event.is_set()\<close>.\<close>

definition cancel_is_set :: "env \<Rightarrow> world \<Rightarrow> bool \<times> world" where
  "cancel_is_set E w =
     (case cancel_event E of
        None \<Rightarrow> (False, w)
      | Some f \<Rightarrow> (f (clock w), w\<lparr>clock := Suc (clock w)\<rparr>))"

text \<open>
  The busy wait \<^verbatim>\<open>while pause_event.is_set(): if cancelled: break; time.sleep(0.1)\<close>.
  It need not end: not returning is the value \<open>None\<close>.
\<close>

partial_function (option) pause_loop :: "env \<Rightarrow> (nat \<Rightarrow> bool) \<Rightarrow> world \<Rightarrow> world option" where
  "pause_loop E p w =
     (if p (clock w) then
        (if fst (cancel_is_set E (w\<lparr>clock := Suc (clock w)\<rparr>))
         then Some (snd (cancel_is_set E (w\<lparr>clock := Suc (clock w)\<rparr>)))
         else pause_loop E p (snd (cancel_is_set E (w\<lparr>clock := Suc (clock w)\<rparr>))))
      else Some (w\<lparr>clock := Suc (clock w)\<rparr>))"

declare pause_loop.simps [code]

definition wait_while_paused :: "env \<Rightarrow> world \<Rightarrow> world option" where
  "wait_while_paused E w =
     (case pause_event E of
        None \<Rightarrow> Some w
      | Some p \<Rightarrow> pause_loop E p w)"

text \<open>
  A token callback is the caller's callback, which records its arguments in \<open>tokens\<close>,
  behind the index translation of the wrappers around it; \<open>None\<close> is no callback.
\<close>

definition call_token :: "(nat \<Rightarrow> nat) option \<Rightarrow> nat \<Rightarrow> ustr \<Rightarrow> world \<Rightarrow> world" where
  "call_token cb idx text w =
     (case cb of
        None \<Rightarrow> w
      | Some f \<Rightarrow> w\<lparr>tokens := tokens w @ [(f idx, text)]\<rparr>)"

section \<open>The backend invoker\<close>

definition glossary_str :: "dict \<Rightarrow> ustr" where
  "glossary_str glossary = join [10] (map (\<lambda>(k, v). k @ u '' -> '' @ v) glossary)"

definition make_prompt :: "ustr \<Rightarrow> ustr \<Rightarrow> ustr \<Rightarrow> ustr \<Rightarrow> ustr \<Rightarrow> ustr" where
  "make_prompt gstr target_lang start_mark end_mark text =
     u ''You are an expert literary translator. Your goal is to produce fluent, natural English while preserving tone. ''
     @ u ''Use the glossary consistently. Avoid adding explanations. Use double line breaks between paragraphs.''
     @ [10] @ u ''--- Glossary ---'' @ [10] @ gstr @ [10] @ u ''---'' @ [10]
     @ u ''Translate the text to '' @ target_lang @ u ''. Place your translation between ''
     @ start_mark @ u '' and '' @ end_mark @ u ''. ''
     @ u ''After that, list any new names or terms as '' @ [39] @ u ''source -> translation''
     @ [39] @ u '' between '' @ GLOSSARY_START @ u '' and '' @ GLOSSARY_END @ u ''.''
     @ [10] @ text"

text \<open>\<^verbatim>\<open>d.update(other)\<close>: the items of \<open>other\<close> are assigned in order.\<close>

definition dict_update :: "dict \<Rightarrow> dict \<Rightarrow> dict" where
  "dict_update d other = fold (\<lambda>(k, v). AList.update k v) other d"

text \<open>The loop over the lines of a streamed answer.\<close>

fun consume_stream ::
  "(nat \<Rightarrow> nat) option \<Rightarrow> nat \<Rightarrow> ustr \<Rightarrow> ustr \<Rightarrow> (ustr \<times> bool) list \<Rightarrow> ustr \<Rightarrow> world
   \<Rightarrow> ustr \<times> world" where
  "consume_stream cb idx start_mark end_mark [] raw w = (raw, w)"
| "consume_stream cb idx start_mark end_mark ((delta, done) # parts) raw w =
     (let raw1 = (if delta \<noteq> [] then raw @ delta else raw);
          w1 = (if delta \<noteq> [] then call_token cb idx (prune_marked raw1 start_mark end_mark) w
                else w)
      in if done then (raw1, w1)
         else consume_stream cb idx start_mark end_mark parts raw1 w1)"

record ollama_args =
  o_target_lang :: ustr
  o_glossary :: dict
  o_stream :: bool
  o_token_callback :: "(nat \<Rightarrow> nat) option"
  o_start_mark :: ustr
  o_end_mark :: ustr

type_synonym triple = "ustr list \<times> dict \<times> ustr list"

text \<open>
  The body of the \<^verbatim>\<open>try\<close> up to the raw answer of one sentence: the prompt is built
  and sent; \<open>None\<close> is a failed request. When streaming, the token callback is called
  while the lines come in.
\<close>

definition ollama_request ::
  "env \<Rightarrow> ollama_args \<Rightarrow> nat \<Rightarrow> ustr \<Rightarrow> world \<Rightarrow> ustr option \<times> world" where
  "ollama_request E A idx sentence w =
     (let prompt = make_prompt (glossary_str (o_glossary A)) (o_target_lang A)
                     (o_start_mark A) (o_end_mark A) sentence;
          w1 = w\<lparr>requests := Suc (requests w), inputs := inputs w @ [sentence],
                 prompts := prompts w @ [prompt]\<rparr>
      in if o_stream A then
           (case generate_stream E (requests w) prompt of
              None \<Rightarrow> (None, w1)
            | Some parts \<Rightarrow>
                (case consume_stream (o_token_callback A) idx (o_start_mark A)
                        (o_end_mark A) parts [] w1 of
                   (raw, w2) \<Rightarrow> (Some raw, w2)))
         else
           (case generate E (requests w) prompt of
              None \<Rightarrow> (None, w1)
            | Some raw \<Rightarrow> (Some raw, w1)))"

text \<open>
  The loop of \<^verbatim>\<open>translate_with_ollama\<close> from sentence \<open>idx\<close> on, with the lists
  \<open>outputs\<close>, \<open>new_terms\<close> and \<open>raw_outputs\<close> built so far. A cancellation seen in the
  pause loop only leaves that loop: the sentence is still sent.
\<close>

fun ollama_loop ::
  "env \<Rightarrow> ollama_args \<Rightarrow> nat \<Rightarrow> ustr list \<Rightarrow> triple \<Rightarrow> world
   \<Rightarrow> ((error + triple) \<times> world) option" where
  "ollama_loop E A idx [] acc w = Some (Inr acc, w)"
| "ollama_loop E A idx (sentence # rest) (outputs, new_terms, raw_outputs) w =
     (if fst (cancel_is_set E w)
      then Some (Inr (outputs, new_terms, raw_outputs), snd (cancel_is_set E w))
      else
        (case wait_while_paused E (snd (cancel_is_set E w)) of
           None \<Rightarrow> None
         | Some w1 \<Rightarrow>
            (case ollama_request E A idx sentence w1 of
               (None, w2) \<Rightarrow> Some (Inl RuntimeError, w2)
             | (Some raw, w2) \<Rightarrow>
                 (let (cleaned, updates) =
                        parse_translation_and_glossary (ucd E) raw (o_glossary A)
                          (o_start_mark A) (o_end_mark A);
                      w3 = (if \<not> o_stream A
                            then call_token (o_token_callback A) idx cleaned w2
                            else w2)
                  in ollama_loop E A (Suc idx) rest
                       (outputs @ [cleaned], dict_update new_terms updates,
                        raw_outputs @ [raw]) w3))))"

definition translate_with_ollama ::
  "env \<Rightarrow> ollama_args \<Rightarrow> ustr list \<Rightarrow> world \<Rightarrow> ((error + triple) \<times> world) option" where
  "translate_with_ollama E A sentences w = ollama_loop E A 0 sentences ([], [], []) w"

text \<open>The loop of \<^verbatim>\<open>translate_sentences\<close> over the \<^verbatim>\<open>transformers\<close> pipeline.\<close>

fun pipeline_loop ::
  "env \<Rightarrow> ustr list \<Rightarrow> ustr list \<Rightarrow> world \<Rightarrow> (ustr list \<times> world) option" where
  "pipeline_loop E [] outs w = Some (outs, w)"
| "pipeline_loop E (sent # rest) outs w =
     (if fst (cancel_is_set E w) then Some (outs, snd (cancel_is_set E w))
      else
        (case wait_while_paused E (snd (cancel_is_set E w)) of
           None \<Rightarrow> None
         | Some w1 \<Rightarrow>
             pipeline_loop E rest (outs @ [pipeline_translate E (requests w1) sent])
               (w1\<lparr>requests := Suc (requests w1), inputs := inputs w1 @ [sent]\<rparr>)))"

definition translate_sentences ::
  "env \<Rightarrow> ustr \<Rightarrow> bool \<Rightarrow> (nat \<Rightarrow> nat) option \<Rightarrow> dict \<Rightarrow> ustr \<Rightarrow> ustr \<Rightarrow> ustr list \<Rightarrow> world
   \<Rightarrow> ((error + triple) \<times> world) option" where
  "translate_sentences E target_lang use_ollama token_callback glossary start_mark end_mark
     sentences w =
     (if use_ollama then
        translate_with_ollama E
          \<lparr>o_target_lang = target_lang, o_glossary = glossary,
           o_stream = (token_callback \<noteq> None), o_token_callback = token_callback,
           o_start_mark = start_mark, o_end_mark = end_mark\<rparr> sentences w
      else
        (case pipeline_loop E sentences [] w of
           None \<Rightarrow> None
         | Some (outs, w1) \<Rightarrow> Some (Inr (outs, [], outs), w1)))"

section \<open>The windowed translator\<close>

text \<open>
  \<^verbatim>\<open>range(i, stop, step)\<close> for a positive step, which \<^verbatim>\<open>max(1, window - overlap)\<close>
  always is.
\<close>

function range_from :: "nat \<Rightarrow> nat \<Rightarrow> nat \<Rightarrow> nat list" where
  "range_from i stop step =
     (if i < stop \<and> 0 < step then i # range_from (i + step) stop step else [])"
  by pat_completeness auto
termination
  by (relation "measure (\<lambda>(i, stop, step). stop - i)") auto

declare range_from.simps [simp del]

text \<open>
  The slice \<^verbatim>\<open>xs[start:stop]\<close> for a non-negative start: a negative stop counts from
  the end of the list.
\<close>

definition py_slice :: "'a list \<Rightarrow> nat \<Rightarrow> int \<Rightarrow> 'a list" where
  "py_slice xs start stop =
     (let n = int (length xs);
          e = (if stop < 0 then max 0 (stop + n) else min stop n)
      in take (nat e - start) (drop start xs))"

text \<open>The tagged sentence \<^verbatim>\<open>f"[{start + i}] {s}"\<close>.\<close>

definition tag :: "nat \<Rightarrow> ustr \<Rightarrow> ustr" where
  "tag n s = u ''['' @ str_of_nat n @ u ''] '' @ s"

text \<open>
  \<^verbatim>\<open>re.sub(r"^\[\d+\]\s*", "", out)\<close>: the pattern is anchored at the start, so at most
  the leading tag and the white space after it go.
\<close>

definition strip_tag :: "unicode \<Rightarrow> ustr \<Rightarrow> ustr" where
  "strip_tag U out =
     (case out of
        [] \<Rightarrow> out
      | c # r \<Rightarrow>
          (if c = 91 \<and> takeWhile (isdecimal U) r \<noteq> []
              \<and> startswith [93] (dropWhile (isdecimal U) r)
           then dropWhile isspace (tl (dropWhile (isdecimal U) r))
           else out))"

text \<open>\<^verbatim>\<open>d.setdefault(k, v)\<close> on a dictionary that is only read by key.\<close>

definition setdefault :: "('k \<rightharpoonup> 'v) \<Rightarrow> 'k \<Rightarrow> 'v \<Rightarrow> ('k \<rightharpoonup> 'v)" where
  "setdefault m k v = (case m k of None \<Rightarrow> m(k \<mapsto> v) | Some old \<Rightarrow> m)"

text \<open>The loop over \<^verbatim>\<open>enumerate(zip(outs, raws))\<close> that fills the two result maps.\<close>

fun merge_outputs ::
  "unicode \<Rightarrow> dict \<Rightarrow> nat \<Rightarrow> nat \<Rightarrow> (ustr \<times> ustr) list
   \<Rightarrow> (nat \<rightharpoonup> ustr) \<times> (nat \<rightharpoonup> ustr) \<Rightarrow> (nat \<rightharpoonup> ustr) \<times> (nat \<rightharpoonup> ustr)" where
  "merge_outputs U glossary start idx [] (translated, raw_map) = (translated, raw_map)"
| "merge_outputs U glossary start idx ((out, raw) # rest) (translated, raw_map) =
     (let sent_id = start + idx;
          cleaned = strip (strip_tag U out);
          cleaned = apply_glossary cleaned glossary
      in merge_outputs U glossary start (Suc idx) rest
           (setdefault translated sent_id cleaned, setdefault raw_map sent_id raw))"

record context_args =
  c_target_lang :: ustr
  c_use_ollama :: bool
  c_window :: int
  c_overlap :: int
  c_progress_callback :: bool
  c_token_callback :: bool
  c_glossary :: dict

type_synonym results = "(nat \<rightharpoonup> ustr) \<times> (nat \<rightharpoonup> ustr) \<times> dict"

text \<open>The window passed to the backend: the slice with every sentence tagged.\<close>

definition window_sents :: "ustr list \<Rightarrow> nat \<Rightarrow> int \<Rightarrow> ustr list" where
  "window_sents sentences start window =
     map (\<lambda>(i, s). tag (start + i) s)
       (enumerate 0 (py_slice sentences start (int start + window)))"

text \<open>
  The rest of the loop body after \<^verbatim>\<open>translate_sentences\<close> has returned in world \<open>w2\<close>
  (it was called in world \<open>w1\<close> on the list \<open>handed\<close>): the results are merged, the
  updates are merged, the progress is reported.
\<close>

definition finish_window ::
  "env \<Rightarrow> context_args \<Rightarrow> ustr list \<Rightarrow> nat \<Rightarrow> nat \<Rightarrow> ustr list \<Rightarrow> triple \<Rightarrow> results
   \<Rightarrow> world \<Rightarrow> world \<Rightarrow> results \<times> world" where
  "finish_window E C sentences step start handed r st w1 w2 =
     (case (r, st) of ((outs, updates, raws), (translated, raw_map, all_updates)) \<Rightarrow>
        (let (translated1, raw_map1) =
               merge_outputs (ucd E) (c_glossary C) start 0 (zip outs raws)
                 (translated, raw_map);
             all_updates1 =
               (if updates \<noteq> [] then dict_update all_updates updates else all_updates);
             processed = min (length sentences) (start + step);
             w3 = w2\<lparr>progress :=
                       (if c_progress_callback C
                        then progress w2 @ [(processed, length sentences)]
                        else progress w2),
                     batches := batches w2 @
                       [\<lparr>b_start = start, b_requests = requests w1, b_sents = handed,
                         b_outs = outs, b_updates = updates, b_raws = raws,
                         b_tokens = drop (length (tokens w1)) (tokens w2)\<rparr>]\<rparr>
         in ((translated1, raw_map1, all_updates1), w3)))"

text \<open>
  The loop of \<^verbatim>\<open>translate_with_context\<close> over the window starts still to come, with
  \<open>translated\<close>, \<open>raw_map\<close> and \<open>all_updates\<close> as they stand.
\<close>

fun window_loop ::
  "env \<Rightarrow> context_args \<Rightarrow> ustr list \<Rightarrow> nat \<Rightarrow> nat list \<Rightarrow> results \<Rightarrow> world
   \<Rightarrow> ((error + results) \<times> world) option" where
  "window_loop E C sentences step [] st w = Some (Inr st, w)"
| "window_loop E C sentences step (start # starts) st w =
     (if fst (cancel_is_set E w) then Some (Inr st, snd (cancel_is_set E w))
      else
        (case wait_while_paused E (snd (cancel_is_set E w)) of
           None \<Rightarrow> None
         | Some w1 \<Rightarrow>
            (let handed = window_sents sentences start (c_window C)
             in case translate_sentences E (c_target_lang C) (c_use_ollama C)
                    (if c_token_callback C then Some (\<lambda>idx. start + idx) else None)
                    (c_glossary C) START_MARK END_MARK handed w1 of
               None \<Rightarrow> None
             | Some (Inl e, w2) \<Rightarrow> Some (Inl e, w2)
             | Some (Inr r, w2) \<Rightarrow>
                 (case finish_window E C sentences step start handed r st w1 w2 of
                    (st1, w3) \<Rightarrow> window_loop E C sentences step starts st1 w3))))"

text \<open>\<^verbatim>\<open>[m[i] for i in ids]\<close>: the first missing key raises \<^verbatim>\<open>KeyError\<close>.\<close>

fun lookup_all :: "(nat \<rightharpoonup> 'v) \<Rightarrow> nat list \<Rightarrow> error + 'v list" where
  "lookup_all m [] = Inr []"
| "lookup_all m (i # ids) =
     (case m i of
        None \<Rightarrow> Inl (KeyError i)
      | Some v \<Rightarrow> (case lookup_all m ids of Inl e \<Rightarrow> Inl e | Inr vs \<Rightarrow> Inr (v # vs)))"

definition translate_with_context ::
  "env \<Rightarrow> context_args \<Rightarrow> ustr list \<Rightarrow> world \<Rightarrow> ((error + triple) \<times> world) option" where
  "translate_with_context E C sentences w =
     (if sentences = [] then Some (Inr ([], [], []), w)
      else
        (let step = nat (max 1 (c_window C - c_overlap C));
             total = length sentences
         in case window_loop E C sentences step (range_from 0 total step)
                   (Map.empty, Map.empty, []) w of
              None \<Rightarrow> None
            | Some (Inl e, w1) \<Rightarrow> Some (Inl e, w1)
            | Some (Inr (translated, raw_map, all_updates), w1) \<Rightarrow>
                (case lookup_all translated [0..<length sentences] of
                   Inl e \<Rightarrow> Some (Inl e, w1)
                 | Inr ts \<Rightarrow>
                     (case lookup_all raw_map [0..<length sentences] of
                        Inl e \<Rightarrow> Some (Inl e, w1)
                      | Inr rs \<Rightarrow> Some (Inr (ts, all_updates, rs), w1)))))"

section \<open>The specification's reference definitions\<close>

text \<open>
  The reference scan of the sentence segmenter, as the specification words it: the
  characters are taken one by one into a buffer; a boundary is one of the three boundary
  characters that is not followed at once by another one and is not a full stop (code
  point 46) between two digits; at a boundary the trimmed buffer is emitted and reset, and
  a trailing buffer that is not blank is emitted at the end.
\<close>

definition followed_by :: "(nat \<Rightarrow> bool) \<Rightarrow> ustr \<Rightarrow> bool" where
  "followed_by P rest = (case rest of [] \<Rightarrow> False | d # ds \<Rightarrow> P d)"

definition preceded_by :: "(nat \<Rightarrow> bool) \<Rightarrow> nat option \<Rightarrow> bool" where
  "preceded_by P prev = (case prev of None \<Rightarrow> False | Some p \<Rightarrow> P p)"

definition is_boundary :: "unicode \<Rightarrow> nat option \<Rightarrow> nat \<Rightarrow> ustr \<Rightarrow> bool" where
  "is_boundary U prev c rest =
     (boundary_char c \<and> \<not> followed_by boundary_char rest
      \<and> \<not> (c = 46 \<and> preceded_by (isdigit U) prev \<and> followed_by (isdigit U) rest))"

fun segment_scan :: "unicode \<Rightarrow> nat option \<Rightarrow> ustr \<Rightarrow> ustr \<Rightarrow> ustr list" where
  "segment_scan U prev [] buffer = (if strip buffer \<noteq> [] then [strip buffer] else [])"
| "segment_scan U prev (c # rest) buffer =
     (if is_boundary U prev c rest
      then strip (buffer @ [c]) # segment_scan U (Some c) rest []
      else segment_scan U (Some c) rest (buffer @ [c]))"

definition segment :: "unicode \<Rightarrow> ustr \<Rightarrow> ustr list" where
  "segment U text = segment_scan U None text []"

text \<open>\<^verbatim>\<open>p in s\<close>: the marker \<open>p\<close> occurs somewhere in \<open>s\<close>.\<close>

fun occurs :: "ustr \<Rightarrow> ustr \<Rightarrow> bool" where
  "occurs p [] = startswith p []"
| "occurs p (c # cs) = (startswith p (c # cs) \<or> occurs p cs)"

text \<open>
  The glossary rules, as the specification words them: a line is split on its first
  \<^verbatim>\<open>->\<close> into source and target, both trimmed; the candidate is rejected when one side
  is empty, when both are equal up to case, when the source is a key of the existing
  glossary, when the source has at most one character, or when the source is ASCII and
  does not start with an uppercase letter.
\<close>

definition line_candidate :: "ustr \<Rightarrow> (ustr \<times> ustr) option" where
  "line_candidate line =
     (case split_once (u ''->'') line of
        None \<Rightarrow> None
      | Some (a, b) \<Rightarrow> Some (strip a, strip b))"

definition rejected :: "unicode \<Rightarrow> dict \<Rightarrow> ustr \<Rightarrow> ustr \<Rightarrow> bool" where
  "rejected U glossary src dst =
     (src = [] \<or> dst = [] \<or> lower U src = lower U dst \<or> src \<in> fst ` set glossary
      \<or> length src \<le> 1 \<or> (isascii src \<and> \<not> isupper U (hd src)))"

definition accept_line :: "unicode \<Rightarrow> dict \<Rightarrow> ustr \<Rightarrow> dict \<Rightarrow> dict" where
  "accept_line U glossary line updates =
     (case line_candidate line of
        None \<Rightarrow> updates
      | Some (src, dst) \<Rightarrow>
          (if rejected U glossary src dst then updates else AList.update src dst updates))"


definition twice_response :: ustr where
  "twice_response =
     u ''<<<GLOSSARY_START>>>Foo -> Bar'' @ [10] @ u ''Foo -> Baz<<<GLOSSARY_END>>>''"

section \<open>Notions for stating the properties of a run\<close>

text \<open>
  An event that is absent or never read as set, and an environment in which a run is not
  cut short: the cancellation flag is never read as set, every wait on the pause flag
  ends (the flag may be set and cleared again any number of times), and every request to
  the server is answered.
\<close>

definition never_set :: "(nat \<Rightarrow> bool) option \<Rightarrow> bool" where
  "never_set ev = (case ev of None \<Rightarrow> True | Some f \<Rightarrow> (\<forall>t. \<not> f t))"

definition uninterrupted :: "env \<Rightarrow> bool" where
  "uninterrupted E =
     (never_set (cancel_event E) \<and> (\<forall>w. wait_while_paused E w \<noteq> None)
      \<and> (\<forall>n p. generate E n p \<noteq> None) \<and> (\<forall>n p. generate_stream E n p \<noteq> None))"

text \<open>
  Two frames for the effects of a step. A quiet step only moves the clock. A calm step
  leaves the log of windows and the progress reports alone and calls the token callback
  \<open>cb\<close> only with translated indices of local indices between \<open>lo\<close> and \<open>hi\<close>.
\<close>

definition quiet :: "world \<Rightarrow> world \<Rightarrow> bool" where
  "quiet w w' = (\<exists>c. w' = w\<lparr>clock := c\<rparr>)"

definition calm :: "(nat \<Rightarrow> nat) option \<Rightarrow> nat \<Rightarrow> nat \<Rightarrow> world \<Rightarrow> world \<Rightarrow> bool" where
  "calm cb lo hi w w' =
     (batches w' = batches w \<and> progress w' = progress w
      \<and> (\<exists>new. tokens w' = tokens w @ new
            \<and> (\<forall>(j, t) \<in> set new. \<exists>f i. cb = Some f \<and> lo \<le> i \<and> i < hi \<and> j = f i)))"

text \<open>Abbreviations for parts of the backend invoker.\<close>

definition prompt_of :: "ollama_args \<Rightarrow> ustr \<Rightarrow> ustr" where
  "prompt_of A s = make_prompt (glossary_str (o_glossary A)) (o_target_lang A)
                     (o_start_mark A) (o_end_mark A) s"

definition after_answer :: "env \<Rightarrow> ollama_args \<Rightarrow> nat \<Rightarrow> ustr \<Rightarrow> world \<Rightarrow> world" where
  "after_answer E A idx raw w2 =
     (if \<not> o_stream A
      then call_token (o_token_callback A) idx
             (fst (parse_translation_and_glossary (ucd E) raw (o_glossary A)
                     (o_start_mark A) (o_end_mark A))) w2
      else w2)"

definition args_of :: "ustr \<Rightarrow> (nat \<Rightarrow> nat) option \<Rightarrow> dict \<Rightarrow> ustr \<Rightarrow> ustr \<Rightarrow> ollama_args" where
  "args_of target_lang cb glossary st en =
     \<lparr>o_target_lang = target_lang, o_glossary = glossary, o_stream = (cb \<noteq> None),
      o_token_callback = cb, o_start_mark = st, o_end_mark = en\<rparr>"

text \<open>
  What the windowed translator does to an output before it stores it: the tag is
  stripped, the text trimmed and the glossary applied.
\<close>

definition cleaned_output :: "unicode \<Rightarrow> dict \<Rightarrow> ustr \<Rightarrow> ustr" where
  "cleaned_output U glossary out = apply_glossary (strip (strip_tag U out)) glossary"

text \<open>
  A logged window covers an index when it returned an output and a raw response for it.
  The first window of the log that covers an index, and the translation and raw
  response this window has for it.
\<close>

definition covers :: "batch \<Rightarrow> nat \<Rightarrow> bool" where
  "covers b i =
     (b_start b \<le> i \<and> i < b_start b + min (length (b_outs b)) (length (b_raws b)))"

definition first_cover :: "batch list \<Rightarrow> nat \<Rightarrow> batch option" where
  "first_cover bs i = find (\<lambda>b. covers b i) bs"

definition kept_translation :: "unicode \<Rightarrow> dict \<Rightarrow> batch list \<Rightarrow> nat \<Rightarrow> ustr option" where
  "kept_translation U glossary bs i =
     (case first_cover bs i of
        None \<Rightarrow> None
      | Some b \<Rightarrow> Some (cleaned_output U glossary (b_outs b ! (i - b_start b))))"

definition kept_raw :: "batch list \<Rightarrow> nat \<Rightarrow> ustr option" where
  "kept_raw bs i =
     (case first_cover bs i of
        None \<Rightarrow> None
      | Some b \<Rightarrow> Some (b_raws b ! (i - b_start b)))"

text \<open>The log entry of a window, the callback handed to its call, and its prompts.\<close>

definition batch_of :: "context_args \<Rightarrow> ustr list \<Rightarrow> nat \<Rightarrow> triple \<Rightarrow> world \<Rightarrow> world \<Rightarrow> batch" where
  "batch_of C sentences start r w1 w2 =
     \<lparr>b_start = start, b_requests = requests w1,
      b_sents = window_sents sentences start (c_window C),
      b_outs = fst r, b_updates = fst (snd r), b_raws = snd (snd r),
      b_tokens = drop (length (tokens w1)) (tokens w2)\<rparr>"

definition window_callback :: "context_args \<Rightarrow> nat \<Rightarrow> (nat \<Rightarrow> nat) option" where
  "window_callback C start = (if c_token_callback C then Some (\<lambda>idx. start + idx) else None)"

definition batch_prompts :: "context_args \<Rightarrow> batch \<Rightarrow> ustr list" where
  "batch_prompts C b =
     map (make_prompt (glossary_str (c_glossary C)) (c_target_lang C) START_MARK END_MARK)
       (take (length (b_outs b)) (b_sents b))"

text \<open>
  A well-formed log entry: the sentences are the tagged window at its start, there are
  as many outputs as raw responses and no more than sentences, and every token callback
  made during the call carries an index of the window.
\<close>

definition shaped :: "context_args \<Rightarrow> ustr list \<Rightarrow> batch \<Rightarrow> bool" where
  "shaped C sentences b =
     (b_sents b = window_sents sentences (b_start b) (c_window C)
      \<and> length (b_outs b) = length (b_raws b)
      \<and> length (b_outs b) \<le> length (b_sents b)
      \<and> list_all (\<lambda>(j, t). c_token_callback C \<and> b_start b \<le> j
                        \<and> j < b_start b + length (b_sents b)) (b_tokens b))"

text \<open>
  What the window loop has done when it returns normally from results \<open>st\<close> in world
  \<open>w\<close> with results \<open>st'\<close> in world \<open>w'\<close>, in terms of the windows \<open>bs\<close> it logged.
\<close>

definition run_facts ::
  "env \<Rightarrow> context_args \<Rightarrow> ustr list \<Rightarrow> nat list \<Rightarrow> results \<Rightarrow> world \<Rightarrow> batch list
   \<Rightarrow> results \<Rightarrow> world \<Rightarrow> bool" where
  "run_facts E C sentences starts st w bs st' w' =
     (batches w' = batches w @ bs
      \<and> (\<forall>i. fst st' i = (case fst st i of Some v \<Rightarrow> Some v
                           | None \<Rightarrow> kept_translation (ucd E) (c_glossary C) bs i))
      \<and> (\<forall>i. fst (snd st') i = (case fst (snd st) i of Some v \<Rightarrow> Some v
                           | None \<Rightarrow> kept_raw bs i))
      \<and> snd (snd st') = fold (\<lambda>b d. dict_update d (b_updates b)) bs (snd (snd st))
      \<and> tokens w' = tokens w @ concat (map b_tokens bs)
      \<and> map b_start bs = take (length bs) starts
      \<and> list_all (shaped C sentences) bs
      \<and> (if c_use_ollama C then prompts w' = prompts w @ concat (map (batch_prompts C) bs)
          else prompts w' = prompts w))"

text \<open>
  The answers of the backends, request by request. A streamed answer is a list of lines,
  each with a piece of text and the flag that ends the answer: \<open>stream_raw\<close> is the raw
  response the lines add up to from the text \<open>raw\<close> received so far, and \<open>stream_texts\<close>
  are the texts shown while the lines come in, one for every line with a non-empty piece.
\<close>

fun stream_raw :: "(ustr \<times> bool) list \<Rightarrow> ustr \<Rightarrow> ustr" where
  "stream_raw [] raw = raw"
| "stream_raw ((delta, done) # parts) raw =
     (if done then raw @ delta else stream_raw parts (raw @ delta))"

fun stream_texts :: "ustr \<Rightarrow> ustr \<Rightarrow> (ustr \<times> bool) list \<Rightarrow> ustr \<Rightarrow> ustr list" where
  "stream_texts st en [] raw = []"
| "stream_texts st en ((delta, done) # parts) raw =
     (if delta \<noteq> [] then [prune_marked (raw @ delta) st en] else [])
     @ (if done then [] else stream_texts st en parts (raw @ delta))"

text \<open>
  What the server answers to request number \<open>r\<close> for the sentence \<open>s\<close> under the
  arguments \<open>A\<close> of \<^verbatim>\<open>translate_with_ollama\<close>: the raw response, the texts the token
  callback is to receive, and the invocations of the callback \<open>o_token_callback A\<close> for
  the sentence at the local index \<open>idx\<close>. An unanswered request has the empty response.
\<close>

definition ollama_raw :: "env \<Rightarrow> ollama_args \<Rightarrow> nat \<Rightarrow> ustr \<Rightarrow> ustr" where
  "ollama_raw E A r s =
     (if o_stream A then
        (case generate_stream E r (prompt_of A s) of
           None \<Rightarrow> []
         | Some parts \<Rightarrow> stream_raw parts [])
      else
        (case generate E r (prompt_of A s) of
           None \<Rightarrow> []
         | Some raw \<Rightarrow> raw))"

definition ollama_texts :: "env \<Rightarrow> ollama_args \<Rightarrow> nat \<Rightarrow> ustr \<Rightarrow> ustr list" where
  "ollama_texts E A r s =
     (if o_stream A then
        (case generate_stream E r (prompt_of A s) of
           None \<Rightarrow> []
         | Some parts \<Rightarrow> stream_texts (o_start_mark A) (o_end_mark A) parts [])
      else
        [fst (parse_translation_and_glossary (ucd E) (ollama_raw E A r s) (o_glossary A)
                (o_start_mark A) (o_end_mark A))])"

definition ollama_tokens ::
  "env \<Rightarrow> ollama_args \<Rightarrow> nat \<Rightarrow> nat \<Rightarrow> ustr \<Rightarrow> (nat \<times> ustr) list" where
  "ollama_tokens E A idx r s =
     (case o_token_callback A of
        None \<Rightarrow> []
      | Some f \<Rightarrow> map (Pair (f idx)) (ollama_texts E A r s))"

text \<open>
  The same for a window of \<^verbatim>\<open>translate_with_context\<close> under the arguments \<open>C\<close>: the raw
  response of the backend in use to request number \<open>r\<close> for the sentence \<open>s\<close>, the output
  and the glossary updates read from a raw response, and the texts the token callback is
  to receive, which only the server produces and only when the caller registered a
  callback.
\<close>

definition backend_raw :: "env \<Rightarrow> context_args \<Rightarrow> nat \<Rightarrow> ustr \<Rightarrow> ustr" where
  "backend_raw E C r s =
     (if c_use_ollama C then
        (if c_token_callback C then
           (case generate_stream E r
                   (make_prompt (glossary_str (c_glossary C)) (c_target_lang C)
                      START_MARK END_MARK s) of
              None \<Rightarrow> []
            | Some parts \<Rightarrow> stream_raw parts [])
         else
           (case generate E r
                   (make_prompt (glossary_str (c_glossary C)) (c_target_lang C)
                      START_MARK END_MARK s) of
              None \<Rightarrow> []
            | Some raw \<Rightarrow> raw))
      else pipeline_translate E r s)"

definition raw_output :: "env \<Rightarrow> context_args \<Rightarrow> ustr \<Rightarrow> ustr" where
  "raw_output E C raw =
     (if c_use_ollama C
      then fst (parse_translation_and_glossary (ucd E) raw (c_glossary C)
                  START_MARK END_MARK)
      else raw)"

definition raw_updates :: "env \<Rightarrow> context_args \<Rightarrow> ustr \<Rightarrow> dict" where
  "raw_updates E C raw =
     (if c_use_ollama C
      then snd (parse_translation_and_glossary (ucd E) raw (c_glossary C)
                  START_MARK END_MARK)
      else [])"

definition backend_out :: "env \<Rightarrow> context_args \<Rightarrow> nat \<Rightarrow> ustr \<Rightarrow> ustr" where
  "backend_out E C r s = raw_output E C (backend_raw E C r s)"

definition backend_texts :: "env \<Rightarrow> context_args \<Rightarrow> nat \<Rightarrow> ustr \<Rightarrow> ustr list" where
  "backend_texts E C r s =
     (if c_use_ollama C \<and> c_token_callback C then
        (case generate_stream E r
                (make_prompt (glossary_str (c_glossary C)) (c_target_lang C)
                   START_MARK END_MARK s) of
           None \<Rightarrow> []
         | Some parts \<Rightarrow> stream_texts START_MARK END_MARK parts [])
      else [])"

text \<open>
  \<open>per_request f idx r ss\<close> lists \<open>f\<close> over the sentences \<open>ss\<close>, the first at the local
  index \<open>idx\<close> and with request number \<open>r\<close>, both counted up from sentence to sentence.
\<close>

fun per_request :: "(nat \<Rightarrow> nat \<Rightarrow> ustr \<Rightarrow> 'a) \<Rightarrow> nat \<Rightarrow> nat \<Rightarrow> ustr list \<Rightarrow> 'a list" where
  "per_request f idx r [] = []"
| "per_request f idx r (s # ss) = f idx r s # per_request f (Suc idx) (Suc r) ss"

text \<open>
  A logged window is answered by the backend: the sentences it returned outputs for went
  to the backend one request each, numbered from \<open>b_requests\<close> on; the raw responses and
  the outputs are the answers to these requests in order; the updates are the updates
  read from the raw responses, merged in order by \<^verbatim>\<open>dict.update\<close>; and the token
  callback of the caller received, for the sentence at the local index \<open>k\<close>, the texts of
  its request under the index \<open>b_start + k\<close>.
\<close>

definition answered :: "env \<Rightarrow> context_args \<Rightarrow> batch \<Rightarrow> bool" where
  "answered E C b =
     (b_raws b = map (\<lambda>(k, s). backend_raw E C (b_requests b + k) s)
                   (enumerate 0 (take (length (b_outs b)) (b_sents b)))
      \<and> b_outs b = map (\<lambda>(k, s). backend_out E C (b_requests b + k) s)
                   (enumerate 0 (take (length (b_outs b)) (b_sents b)))
      \<and> b_updates b = fold (\<lambda>raw d. dict_update d (raw_updates E C raw)) (b_raws b) []
      \<and> b_tokens b =
          concat (map (\<lambda>(k, s). map (Pair (b_start b + k))
                                 (backend_texts E C (b_requests b + k) s))
                    (enumerate 0 (take (length (b_outs b)) (b_sents b)))))"

text \<open>The windows of a log made their requests one after the other, counted from \<open>r\<close>.\<close>

fun numbered :: "nat \<Rightarrow> batch list \<Rightarrow> bool" where
  "numbered r [] = True"
| "numbered r (b # bs) = (b_requests b = r \<and> numbered (r + length (b_outs b)) bs)"

text \<open>
  What the window loop has sent to the backend when it returns normally in world \<open>w'\<close>
  from world \<open>w\<close> with the windows \<open>bs\<close> logged: every window is answered, and the
  sentences that went to the backend are those of the windows, in order.
\<close>

definition requests_explained :: "env \<Rightarrow> context_args \<Rightarrow> world \<Rightarrow> batch list \<Rightarrow> world \<Rightarrow> bool" where
  "requests_explained E C w bs w' =
     (list_all (answered E C) bs
      \<and> numbered (requests w) bs
      \<and> requests w' = requests w + length (concat (map b_outs bs))
      \<and> inputs w' = inputs w
           @ concat (map (\<lambda>b. take (length (b_outs b)) (b_sents b)) bs))"

text \<open>The step \<^verbatim>\<open>max(1, window - overlap)\<close>.\<close>

definition step_of :: "context_args \<Rightarrow> nat" where
  "step_of C = nat (max 1 (c_window C - c_overlap C))"

section \<open>Example environments and runs\<close>

text \<open>
  A Unicode table without digits, uppercase letters or case mapping outside the tabled
  code points. An answer of the server that translates to "x" and names the term "Foo",
  as "Bar" in the first request and as "Baz" in every later one.
\<close>

definition ascii_only :: unicode where
  "ascii_only = \<lparr>uc_isdigit = (\<lambda>c. False), uc_isdecimal = (\<lambda>c. False),
                  uc_isupper = (\<lambda>c. False), uc_lower = (\<lambda>s. s)\<rparr>"

definition foo_answer :: "nat \<Rightarrow> ustr" where
  "foo_answer n =
     u ''<<<START>>>x<<<END>>><<<GLOSSARY_START>>>Foo -> ''
     @ (if n = 0 then u ''Bar'' else u ''Baz'') @ u ''<<<GLOSSARY_END>>>''"

text \<open>
  An environment without events in which every request is answered, and the same with
  the cancellation flag set from the start. The pipeline appends the number of the
  request to the sentence, so that a sentence translated twice has two different outputs.
\<close>

definition plain_env :: env where
  "plain_env =
     \<lparr>ucd = ascii_only, cancel_event = None, pause_event = None,
      generate = (\<lambda>n p. Some (foo_answer n)),
      generate_stream = (\<lambda>n p. Some [(foo_answer n, True)]),
      pipeline_translate = (\<lambda>n s. s @ u ''#'' @ str_of_nat n)\<rparr>"

definition cancelled_env :: env where
  "cancelled_env = plain_env\<lparr>cancel_event := Some (\<lambda>t. True)\<rparr>"

text \<open>The same with the pause flag set at the first three polls and cleared from then on.\<close>

definition resumed_env :: env where
  "resumed_env = plain_env\<lparr>pause_event := Some (\<lambda>t. t < 3)\<rparr>"

text \<open>
  Arguments: windows of 2 with overlap 1 over the pipeline; the same with overlap -1;
  windows of 1 over Ollama; the default window 50 with overlap 10; windows of 2 with
  overlap 1 over Ollama with a token callback; and windows of 2 without overlap over
  Ollama, with the arguments of the call of \<^verbatim>\<open>translate_with_ollama\<close> they lead to.
\<close>

definition overlap_args :: context_args where
  "overlap_args =
     \<lparr>c_target_lang = u ''en'', c_use_ollama = False, c_window = 2, c_overlap = 1,
      c_progress_callback = False, c_token_callback = False, c_glossary = []\<rparr>"

definition gap_args :: context_args where
  "gap_args = overlap_args\<lparr>c_overlap := - 1\<rparr>"

definition two_window_args :: context_args where
  "two_window_args = overlap_args\<lparr>c_use_ollama := True, c_window := 1, c_overlap := 0\<rparr>"

definition default_args :: context_args where
  "default_args = overlap_args\<lparr>c_window := 50, c_overlap := 10\<rparr>"

definition token_args :: context_args where
  "token_args = overlap_args\<lparr>c_use_ollama := True, c_token_callback := True\<rparr>"

definition batch_args :: context_args where
  "batch_args = overlap_args\<lparr>c_use_ollama := True, c_overlap := 0\<rparr>"

definition batch_call_args :: ollama_args where
  "batch_call_args =
     \<lparr>o_target_lang = u ''en'', o_glossary = [], o_stream = False, o_token_callback = None,
      o_start_mark = START_MARK, o_end_mark = END_MARK\<rparr>"

text \<open>The worlds in which the example runs end.\<close>

definition overlap_world :: world where
  "overlap_world =
     \<lparr>clock = 0, requests = 3, inputs = [u ''[0] a'', u ''[1] b'', u ''[1] b''],
      prompts = [], tokens = [], progress = [],
      batches =
        [\<lparr>b_start = 0, b_requests = 0, b_sents = [u ''[0] a'', u ''[1] b''],
          b_outs = [u ''[0] a#0'', u ''[1] b#1''], b_updates = [],
          b_raws = [u ''[0] a#0'', u ''[1] b#1''], b_tokens = []\<rparr>,
         \<lparr>b_start = 1, b_requests = 2, b_sents = [u ''[1] b''],
          b_outs = [u ''[1] b#2''], b_updates = [],
          b_raws = [u ''[1] b#2''], b_tokens = []\<rparr>]\<rparr>"

definition two_window_world :: world where
  "two_window_world =
     \<lparr>clock = 0, requests = 2, inputs = [u ''[0] a'', u ''[1] b''],
      prompts = [make_prompt [] (u ''en'') START_MARK END_MARK (u ''[0] a''),
                 make_prompt [] (u ''en'') START_MARK END_MARK (u ''[1] b'')],
      tokens = [], progress = [],
      batches =
        [\<lparr>b_start = 0, b_requests = 0, b_sents = [u ''[0] a''], b_outs = [u ''x''],
          b_updates = [(u ''Foo'', u ''Bar'')], b_raws = [foo_answer 0], b_tokens = []\<rparr>,
         \<lparr>b_start = 1, b_requests = 1, b_sents = [u ''[1] b''], b_outs = [u ''x''],
          b_updates = [(u ''Foo'', u ''Baz'')], b_raws = [foo_answer 1], b_tokens = []\<rparr>]\<rparr>"

definition token_world :: world where
  "token_world =
     \<lparr>clock = 8, requests = 3, inputs = [u ''[0] a'', u ''[1] b'', u ''[1] b''],
      prompts = [make_prompt [] (u ''en'') START_MARK END_MARK (u ''[0] a''),
                 make_prompt [] (u ''en'') START_MARK END_MARK (u ''[1] b''),
                 make_prompt [] (u ''en'') START_MARK END_MARK (u ''[1] b'')],
      tokens = [(0, u ''x''), (1, u ''x''), (1, u ''x'')], progress = [],
      batches =
        [\<lparr>b_start = 0, b_requests = 0, b_sents = [u ''[0] a'', u ''[1] b''],
          b_outs = [u ''x'', u ''x''], b_updates = [(u ''Foo'', u ''Baz'')],
          b_raws = [foo_answer 0, foo_answer 1],
          b_tokens = [(0, u ''x''), (1, u ''x'')]\<rparr>,
         \<lparr>b_start = 1, b_requests = 2, b_sents = [u ''[1] b''], b_outs = [u ''x''],
          b_updates = [(u ''Foo'', u ''Baz'')], b_raws = [foo_answer 2],
          b_tokens = [(1, u ''x'')]\<rparr>]\<rparr>"

definition batch_world :: world where
  "batch_world =
     \<lparr>clock = 0, requests = 2, inputs = [u ''[0] a'', u ''[1] b''],
      prompts = [make_prompt [] (u ''en'') START_MARK END_MARK (u ''[0] a''),
                 make_prompt [] (u ''en'') START_MARK END_MARK (u ''[1] b'')],
      tokens = [], progress = [],
      batches =
        [\<lparr>b_start = 0, b_requests = 0, b_sents = [u ''[0] a'', u ''[1] b''],
          b_outs = [u ''x'', u ''x''], b_updates = [(u ''Foo'', u ''Baz'')],
          b_raws = [foo_answer 0, foo_answer 1], b_tokens = []\<rparr>]\<rparr>"

text \<open>Projections of the outcome of a run.\<close>

definition returned :: "((error + triple) \<times> world) option \<Rightarrow> (error + triple) option" where
  "returned run = map_option fst run"

definition returned_updates :: "((error + triple) \<times> world) option \<Rightarrow> dict" where
  "returned_updates run =
     (case run of
        Some (Inr (ts, ups, rs), w) \<Rightarrow> ups
      | Some (Inl e, w) \<Rightarrow> []
      | None \<Rightarrow> [])"

definition logged_updates :: "((error + triple) \<times> world) option \<Rightarrow> dict list" where
  "logged_updates run = (case run of None \<Rightarrow> [] | Some (r, w) \<Rightarrow> map b_updates (batches w))"

definition sent_prompts :: "((error + triple) \<times> world) option \<Rightarrow> ustr list" where
  "sent_prompts run = (case run of None \<Rightarrow> [] | Some (r, w) \<Rightarrow> prompts w)"

section \<open>The sentence segmenter\<close>

lemma split_loop_scan:
  "i \<le> length text \<Longrightarrow>
   split_loop U text i buffer sentences =
     sentences @ segment_scan U (if i = 0 then None else Some (text ! (i - 1))) (drop i text) buffer"
proof (induction U "text" i buffer sentences rule: split_loop.induct)
  case (1 U tx i buffer sentences)
  show ?case
  proof (cases "i < length tx")
    case False
    with "1.prems" have "drop i tx = []" by simp
    with False show ?thesis by (subst split_loop.simps) simp
  next
    case True
    then have d: "drop i tx = tx ! i # drop (Suc i) tx"
      by (simp add: Cons_nth_drop_Suc)
    have fb: "followed_by P (drop (Suc i) tx) = (i + 1 < length tx \<and> P (tx ! (i + 1)))" for P
    proof (cases "Suc i < length tx")
      case True
      then have "drop (Suc i) tx = tx ! Suc i # drop (Suc (Suc i)) tx"
        by (simp add: Cons_nth_drop_Suc)
      with True show ?thesis by (simp add: followed_by_def)
    next
      case False
      then show ?thesis by (simp add: followed_by_def)
    qed
    have pb: "preceded_by P (if i = 0 then None else Some (tx ! (i - 1))) = (0 < i \<and> P (tx ! (i - 1)))" for P
      by (simp add: preceded_by_def)
    from True have le: "i + 1 \<le> length tx" by simp
    let ?ch = "tx ! i"
    let ?prev = "if i = 0 then None else Some (tx ! (i - 1))"
    have nxt: "(if i + 1 = 0 then None else Some (tx ! (i + 1 - 1))) = Some ?ch" by simp
    have unfold: "split_loop U tx i buffer sentences =
        (if boundary_char ?ch then
           (if i + 1 < length tx \<and> boundary_char (tx ! (i + 1))
            then split_loop U tx (i + 1) (buffer @ [?ch]) sentences
            else if ?ch = 46 \<and> 0 < i \<and> isdigit U (tx ! (i - 1))
                    \<and> i + 1 < length tx \<and> isdigit U (tx ! (i + 1))
            then split_loop U tx (i + 1) (buffer @ [?ch]) sentences
            else split_loop U tx (i + 1) [] (sentences @ [strip (buffer @ [?ch])]))
         else split_loop U tx (i + 1) (buffer @ [?ch]) sentences)"
      using True by (subst split_loop.simps) (simp add: Let_def)
    have scan: "segment_scan U ?prev (drop i tx) buffer =
        (if is_boundary U ?prev ?ch (drop (Suc i) tx)
         then strip (buffer @ [?ch]) # segment_scan U (Some ?ch) (drop (Suc i) tx) []
         else segment_scan U (Some ?ch) (drop (Suc i) tx) (buffer @ [?ch]))"
      by (simp only: d segment_scan.simps)
    have bd: "is_boundary U ?prev ?ch (drop (Suc i) tx) =
        (boundary_char ?ch \<and> \<not> (i + 1 < length tx \<and> boundary_char (tx ! (i + 1)))
         \<and> \<not> (?ch = 46 \<and> 0 < i \<and> isdigit U (tx ! (i - 1))
                 \<and> i + 1 < length tx \<and> isdigit U (tx ! (i + 1))))"
      unfolding is_boundary_def fb pb by blast
    consider (run) "boundary_char ?ch" "i + 1 < length tx \<and> boundary_char (tx ! (i + 1))"
      | (dec) "boundary_char ?ch" "\<not> (i + 1 < length tx \<and> boundary_char (tx ! (i + 1)))"
          "?ch = 46 \<and> 0 < i \<and> isdigit U (tx ! (i - 1)) \<and> i + 1 < length tx \<and> isdigit U (tx ! (i + 1))"
      | (cut) "boundary_char ?ch" "\<not> (i + 1 < length tx \<and> boundary_char (tx ! (i + 1)))"
          "\<not> (?ch = 46 \<and> 0 < i \<and> isdigit U (tx ! (i - 1)) \<and> i + 1 < length tx \<and> isdigit U (tx ! (i + 1)))"
      | (plain) "\<not> boundary_char ?ch"
      by blast
    then show ?thesis
    proof cases
      case run
      from "1.IH"(1)[OF True refl refl run le]
      show ?thesis unfolding unfold scan bd nxt using run by simp
    next
      case dec
      from "1.IH"(2)[OF True refl refl dec le]
      show ?thesis unfolding unfold scan bd nxt using dec by auto
    next
      case cut
      from "1.IH"(3)[OF True refl refl cut le]
      show ?thesis unfolding unfold scan bd nxt using cut by auto
    next
      case plain
      from "1.IH"(4)[OF True refl refl plain le]
      show ?thesis unfolding unfold scan bd nxt using plain by simp
    qed
  qed
qed

lemma dropWhile_snoc_keep: "\<not> P c \<Longrightarrow> dropWhile P (xs @ [c]) = dropWhile P xs @ [c]"
  by (induction xs) auto

lemma strip_snoc_nonempty: "\<not> isspace c \<Longrightarrow> strip (buffer @ [c]) \<noteq> []"
  by (simp add: strip_def dropWhile_snoc_keep)

lemma boundary_not_space: "boundary_char c \<Longrightarrow> \<not> isspace c"
  by (auto simp: boundary_char_def isspace_def u_def)

lemma segment_scan_nonempty: "[] \<notin> set (segment_scan U prev text buffer)"
proof (induction "text" arbitrary: prev buffer)
  case Nil
  then show ?case by simp
next
  case (Cons c rest)
  have "strip (buffer @ [c]) \<noteq> []" if "boundary_char c"
    using that by (simp add: strip_snoc_nonempty boundary_not_space)
  with Cons show ?case by (auto simp: is_boundary_def)
qed

text \<open>
  C7: \<^verbatim>\<open>split_sentences\<close> computes the reference scan of the specification. Hence the
  empty text has no sentences, no sentence returned is the empty string, and the text
  "I think ... maybe. Yes!" splits into "I think ...", "maybe." and "Yes!".
\<close>

theorem split_sentences_reference_scan:
  "split_sentences U text = segment U text
   \<and> split_sentences U [] = []
   \<and> [] \<notin> set (split_sentences U text)
   \<and> split_sentences U (u ''I think ... maybe. Yes!'')
       = [u ''I think ...'', u ''maybe.'', u ''Yes!'']"
proof -
  have r: "split_sentences U t = segment U t" for t
    by (simp add: split_sentences_def segment_def split_loop_scan)
  have e: "segment U [] = []" by (simp add: segment_def strip_def)
  have n: "[] \<notin> set (segment U text)" by (simp add: segment_def segment_scan_nonempty)
  have x: "segment U (u ''I think ... maybe. Yes!'') = [u ''I think ...'', u ''maybe.'', u ''Yes!'']"
    by (simp add: segment_def is_boundary_def followed_by_def preceded_by_def
          boundary_char_def u_def strip_def isspace_def isdigit_def tabled_def ascii_digit_def)
  show ?thesis using e n x by (simp add: r)
qed
section \<open>The response parser\<close>

lemma occurs_Nil [simp]: "occurs [] s"
  by (cases s) simp_all

lemma occurs_drop: "occurs p (drop n s) \<Longrightarrow> occurs p s"
proof (induction s arbitrary: n)
  case Nil
  then show ?case by simp
next
  case (Cons c cs)
  show ?case
  proof (cases n)
    case 0
    with Cons.prems show ?thesis by simp
  next
    case (Suc m)
    with Cons show ?thesis by auto
  qed
qed

lemma lazy_until_occurs: "lazy_until en s = Some g \<Longrightarrow> occurs en s"
  by (induction s arbitrary: g) (auto split: if_splits)

lemma match_here_occurs:
  assumes "match_here st en s = Some g"
  shows "startswith st s \<and> occurs en s"
proof -
  from assms have s: "startswith st s" and l: "lazy_until en (drop (length st) s) = Some g"
    by (auto simp: match_here_def split: if_splits)
  from l have "occurs en (drop (length st) s)" by (rule lazy_until_occurs)
  then have "occurs en s" by (rule occurs_drop)
  with s show ?thesis by simp
qed

lemma startswith_occurs: "startswith p s \<Longrightarrow> occurs p s"
  by (cases s) auto

lemma search_marked_occurs:
  "search_marked st en s = Some g \<Longrightarrow> occurs st s \<and> occurs en s"
proof (induction s)
  case Nil
  then show ?case using match_here_occurs[of st en "[]" g] by (simp add: startswith_occurs)
next
  case (Cons c cs)
  show ?case
  proof (cases "match_here st en (c # cs)")
    case None
    with Cons show ?thesis by auto
  next
    case (Some h)
    from match_here_occurs[OF Some] show ?thesis
      using startswith_occurs[of st "c # cs"] by blast
  qed
qed

lemma search_marked_absent:
  "\<not> occurs st s \<or> \<not> occurs en s \<Longrightarrow> search_marked st en s = None"
  using search_marked_occurs[of st en s] by (cases "search_marked st en s") auto

text \<open>
  C8: \<^verbatim>\<open>parse_translation_and_glossary\<close> returns a pair for every response (the model
  has no failing branch, as the source has no raise). When the start or the end marker
  does not occur in the response, the translation is the whole trimmed response; when a
  glossary marker does not occur, the updates are empty.
\<close>

theorem parse_lenient:
  "(\<not> occurs start_mark text \<or> \<not> occurs end_mark text \<longrightarrow>
      fst (parse_translation_and_glossary U text glossary start_mark end_mark) = strip text)
   \<and> (\<not> occurs GLOSSARY_START text \<or> \<not> occurs GLOSSARY_END text \<longrightarrow>
      snd (parse_translation_and_glossary U text glossary start_mark end_mark) = [])"
  by (auto simp: parse_translation_and_glossary_def prune_marked_def Let_def
        search_marked_absent)

theorem parse_lenient_witness:
  "\<not> occurs START_MARK (u '' Hello '') \<and> \<not> occurs GLOSSARY_START (u '' Hello '')
   \<and> parse_translation_and_glossary ascii_only (u '' Hello '') [] START_MARK END_MARK = (u ''Hello'', [])"
proof -
  have a: "\<not> occurs START_MARK (u '' Hello '')" by (simp add: START_MARK_def u_def)
  have b: "\<not> occurs GLOSSARY_START (u '' Hello '')" by (simp add: GLOSSARY_START_def u_def)
  have c: "strip (u '' Hello '') = u ''Hello''" by (simp add: strip_def u_def isspace_def)
  from a b c parse_lenient[of START_MARK "u '' Hello ''" END_MARK ascii_only "[]"]
  show ?thesis by (simp add: prod_eq_iff)
qed

lemma glossary_lines_fold:
  "glossary_lines U glossary lines updates = fold (accept_line U glossary) lines updates"
proof (induction lines arbitrary: updates)
  case Nil
  then show ?case by simp
next
  case (Cons line lines)
  show ?case
  proof (cases "split_once (u ''->'') line")
    case None
    then show ?thesis by (simp add: Cons accept_line_def line_candidate_def)
  next
    case (Some ab)
    obtain a b where ab: "ab = (a, b)" by (cases ab)
    have "glossary \<noteq> [] \<and> strip a \<in> set (map fst glossary) \<longleftrightarrow> strip a \<in> fst ` set glossary"
      by auto
    then show ?thesis
      using Some ab by (simp add: Cons accept_line_def line_candidate_def rejected_def Let_def)
  qed
qed


lemma accept_line_other:
  "\<forall>d. line_candidate line \<noteq> Some (src, d) \<Longrightarrow>
   map_of (accept_line U glossary line updates) src = map_of updates src"
  by (auto simp: accept_line_def update_conv' split: option.splits)

lemma fold_accept_other:
  "\<forall>line \<in> set lines. \<forall>d. line_candidate line \<noteq> Some (src, d) \<Longrightarrow>
   map_of (fold (accept_line U glossary) lines updates) src = map_of updates src"
  by (induction lines arbitrary: updates) (simp_all add: accept_line_other)

lemma accept_line_valid:
  "line_candidate line = Some (src, dst) \<Longrightarrow> \<not> rejected U glossary src dst \<Longrightarrow>
   map_of (accept_line U glossary line updates) src = Some dst"
  by (simp add: accept_line_def update_conv')



text \<open>
  C10: when two lines of one glossary block carry the same source term and both pass the
  rules, and no line after the second carries that term, the returned updates map the
  term to the target of the later line.
\<close>

theorem later_line_wins:
  assumes "search_marked GLOSSARY_START GLOSSARY_END text = Some block"
    and "splitlines block = before @ [l1] @ mid @ [l2] @ after"
    and "line_candidate l1 = Some (src, d1)" and "\<not> rejected U glossary src d1"
    and "line_candidate l2 = Some (src, d2)" and "\<not> rejected U glossary src d2"
    and "\<forall>line \<in> set after. \<forall>d. line_candidate line \<noteq> Some (src, d)"
  shows "map_of (snd (parse_translation_and_glossary U text glossary start_mark end_mark)) src
           = Some d2"
proof -
  let ?f = "fold (accept_line U glossary)"
  have "snd (parse_translation_and_glossary U text glossary start_mark end_mark)
          = ?f (before @ [l1] @ mid @ [l2] @ after) []"
    using assms(1,2) by (simp add: parse_translation_and_glossary_def glossary_lines_fold)
  also have "\<dots> = ?f after (accept_line U glossary l2 (?f (before @ [l1] @ mid) []))"
    by simp
  finally show ?thesis
    using fold_accept_other[OF assms(7)] accept_line_valid[OF assms(5,6)] by simp
qed

theorem later_line_wins_witness:
  "parse_translation_and_glossary ascii_only twice_response [] START_MARK END_MARK
      = (twice_response, [(u ''Foo'', u ''Baz'')])
   \<and> map_of (snd (parse_translation_and_glossary ascii_only twice_response [] START_MARK END_MARK))
        (u ''Foo'') = Some (u ''Baz'')"
proof -
  have blk: "search_marked GLOSSARY_START GLOSSARY_END twice_response
               = Some (u ''Foo -> Bar'' @ [10] @ u ''Foo -> Baz'')"
    by (simp add: twice_response_def GLOSSARY_START_def GLOSSARY_END_def u_def match_here_def)
  have ls: "splitlines (u ''Foo -> Bar'' @ [10] @ u ''Foo -> Baz'')
              = [] @ [u ''Foo -> Bar''] @ [] @ [u ''Foo -> Baz''] @ []"
    by (simp add: splitlines_def u_def linebreak_def)
  have c1: "line_candidate (u ''Foo -> Bar'') = Some (u ''Foo'', u ''Bar'')"
    by (simp add: line_candidate_def u_def strip_def isspace_def)
  have c2: "line_candidate (u ''Foo -> Baz'') = Some (u ''Foo'', u ''Baz'')"
    by (simp add: line_candidate_def u_def strip_def isspace_def)
  have r1: "\<not> rejected ascii_only [] (u ''Foo'') (u ''Bar'')"
    by (simp add: rejected_def lower_def tabled_def ascii_upper_def isascii_def isupper_def u_def)
  have r2: "\<not> rejected ascii_only [] (u ''Foo'') (u ''Baz'')"
    by (simp add: rejected_def lower_def tabled_def ascii_upper_def isascii_def isupper_def u_def)
  have e: "\<forall>line \<in> set []. \<forall>d. line_candidate line \<noteq> Some (u ''Foo'', d)" by simp
  have m: "map_of (snd (parse_translation_and_glossary ascii_only twice_response [] START_MARK END_MARK))
        (u ''Foo'') = Some (u ''Baz'')"
    by (rule later_line_wins[OF blk ls c1 r1 c2 r2 e])
  have tr: "prune_marked twice_response START_MARK END_MARK = twice_response"
    by (simp add: prune_marked_def twice_response_def START_MARK_def END_MARK_def u_def
          match_here_def strip_def isspace_def)
  have p: "parse_translation_and_glossary ascii_only twice_response [] START_MARK END_MARK
      = (twice_response, [(u ''Foo'', u ''Baz'')])"
    using ls by (simp add: parse_translation_and_glossary_def tr blk glossary_lines_fold
          accept_line_def c1 c2 r1 r2 del: glossary_lines.simps)
  from m p show ?thesis by simp
qed

section \<open>Effects and results of the backend invoker and of the windowed translator\<close>

lemma quiet_refl [simp]: "quiet w w"
  by (auto simp: quiet_def intro: exI[of _ "clock w"])

lemma quiet_trans: "quiet w w' \<Longrightarrow> quiet w' w'' \<Longrightarrow> quiet w w''"
  by (auto simp: quiet_def)

lemma quiet_tick [simp]: "quiet w (w\<lparr>clock := c\<rparr>)"
  by (auto simp: quiet_def)

lemma quiet_fields:
  "quiet w w' \<Longrightarrow>
   requests w' = requests w \<and> inputs w' = inputs w \<and> prompts w' = prompts w
   \<and> tokens w' = tokens w
   \<and> progress w' = progress w \<and> batches w' = batches w"
  by (auto simp: quiet_def)

lemma cancel_quiet: "quiet w (snd (cancel_is_set E w))"
  by (simp add: cancel_is_set_def split: option.splits)

lemma pause_loop_quiet:
  assumes "pause_loop E p w = Some w'"
  shows "quiet w w'"
proof (rule pause_loop.raw_induct[where P = "\<lambda>E p w w'. quiet w w'", OF _ assms])
  fix loop :: "env \<Rightarrow> (nat \<Rightarrow> bool) \<Rightarrow> world \<Rightarrow> world option" and E p w w'
  assume IH: "\<And>E p w w'. loop E p w = Some w' \<Longrightarrow> quiet w w'"
  assume eq: "(if p (clock w)
      then if fst (cancel_is_set E (w\<lparr>clock := Suc (clock w)\<rparr>))
           then Some (snd (cancel_is_set E (w\<lparr>clock := Suc (clock w)\<rparr>)))
           else loop E p (snd (cancel_is_set E (w\<lparr>clock := Suc (clock w)\<rparr>)))
      else Some (w\<lparr>clock := Suc (clock w)\<rparr>)) = Some w'"
  let ?w1 = "snd (cancel_is_set E (w\<lparr>clock := Suc (clock w)\<rparr>))"
  have q: "quiet w ?w1"
    by (rule quiet_trans[OF quiet_tick cancel_quiet])
  show "quiet w w'"
  proof (cases "p (clock w)")
    case False
    with eq show ?thesis by auto
  next
    case True
    show ?thesis
    proof (cases "fst (cancel_is_set E (w\<lparr>clock := Suc (clock w)\<rparr>))")
      case True
      with \<open>p (clock w)\<close> eq q show ?thesis by simp
    next
      case False
      with \<open>p (clock w)\<close> eq have "loop E p ?w1 = Some w'" by simp
      then have "quiet ?w1 w'" by (rule IH)
      with q show ?thesis by (rule quiet_trans)
    qed
  qed
qed

lemma wait_quiet: "wait_while_paused E w = Some w' \<Longrightarrow> quiet w w'"
  by (auto simp: wait_while_paused_def pause_loop_quiet split: option.splits)

lemma never_cancel [simp]: "never_set (cancel_event E) \<Longrightarrow> \<not> fst (cancel_is_set E w)"
  by (auto simp: never_set_def cancel_is_set_def split: option.splits)

lemma wait_ends: "uninterrupted E \<Longrightarrow> \<exists>w'. wait_while_paused E w = Some w'"
  by (simp add: uninterrupted_def)

lemma calmI:
  "batches w' = batches w \<Longrightarrow> progress w' = progress w \<Longrightarrow> tokens w' = tokens w @ new \<Longrightarrow>
   (\<And>j t. (j, t) \<in> set new \<Longrightarrow> \<exists>f i. cb = Some f \<and> lo \<le> i \<and> i < hi \<and> j = f i) \<Longrightarrow>
   calm cb lo hi w w'"
  unfolding calm_def by fast

lemma calmE:
  assumes "calm cb lo hi w w'"
  obtains new where "batches w' = batches w" and "progress w' = progress w"
    and "tokens w' = tokens w @ new"
    and "\<And>j t. (j, t) \<in> set new \<Longrightarrow> \<exists>f i. cb = Some f \<and> lo \<le> i \<and> i < hi \<and> j = f i"
  using assms unfolding calm_def by fast

lemma calm_refl [simp]: "calm cb lo hi w w"
  by (rule calmI[where new = "[]"]) simp_all

lemma quiet_calm:
  assumes "quiet w w'"
  shows "calm cb lo hi w w'"
  using quiet_fields[OF assms] by (intro calmI[where new = "[]"]) simp_all

lemma calm_trans:
  assumes "calm cb lo hi w w'" and "calm cb lo hi w' w''"
  shows "calm cb lo hi w w''"
  using assms(1)
proof (rule calmE)
  fix n1
  assume 1: "batches w' = batches w" "progress w' = progress w" "tokens w' = tokens w @ n1"
    "\<And>j t. (j, t) \<in> set n1 \<Longrightarrow> \<exists>f i. cb = Some f \<and> lo \<le> i \<and> i < hi \<and> j = f i"
  from assms(2) show ?thesis
  proof (rule calmE)
    fix n2
    assume 2: "batches w'' = batches w'" "progress w'' = progress w'"
      "tokens w'' = tokens w' @ n2"
      "\<And>j t. (j, t) \<in> set n2 \<Longrightarrow> \<exists>f i. cb = Some f \<and> lo \<le> i \<and> i < hi \<and> j = f i"
    show ?thesis
    proof (rule calmI[where new = "n1 @ n2"])
      show "batches w'' = batches w" using 1(1) 2(1) by simp
      show "progress w'' = progress w" using 1(2) 2(2) by simp
      show "tokens w'' = tokens w @ n1 @ n2" using 1(3) 2(3) by simp
      fix j t assume "(j, t) \<in> set (n1 @ n2)"
      then have "(j, t) \<in> set n1 \<or> (j, t) \<in> set n2" by simp
      then show "\<exists>f i. cb = Some f \<and> lo \<le> i \<and> i < hi \<and> j = f i"
        using 1(4) 2(4) by fast
    qed
  qed
qed

lemma calm_mono:
  assumes "calm cb lo hi w w'" and "lo' \<le> lo" and "hi \<le> hi'"
  shows "calm cb lo' hi' w w'"
  using assms(1)
proof (rule calmE)
  fix n1
  assume 1: "batches w' = batches w" "progress w' = progress w" "tokens w' = tokens w @ n1"
    "\<And>j t. (j, t) \<in> set n1 \<Longrightarrow> \<exists>f i. cb = Some f \<and> lo \<le> i \<and> i < hi \<and> j = f i"
  show ?thesis
  proof (rule calmI[where new = n1])
    fix j t assume "(j, t) \<in> set n1"
    from 1(4)[OF this] obtain f i where "cb = Some f" "lo \<le> i" "i < hi" "j = f i" by fast
    with assms(2,3) show "\<exists>f i. cb = Some f \<and> lo' \<le> i \<and> i < hi' \<and> j = f i"
      by (intro exI[of _ f] exI[of _ i]) simp
  qed (use 1 in simp_all)
qed

lemma call_token_calm: "calm cb idx (Suc idx) w (call_token cb idx t w)"
proof (cases cb)
  case None
  then show ?thesis by (simp add: call_token_def)
next
  case (Some f)
  show ?thesis
  proof (rule calmI[where new = "[(f idx, t)]"])
    fix j t' assume "(j, t') \<in> set [(f idx, t)]"
    then have "j = f idx" by simp
    with Some show "\<exists>g i. cb = Some g \<and> idx \<le> i \<and> i < Suc idx \<and> j = g i"
      by (intro exI[of _ f] exI[of _ idx]) simp
  qed (simp_all add: call_token_def Some)
qed

lemma consume_stream_calm:
  "consume_stream cb idx st en parts raw w = (raw', w') \<Longrightarrow> calm cb idx (Suc idx) w w'"
proof (induction parts arbitrary: raw w)
  case Nil
  then show ?case by simp
next
  case (Cons part parts)
  obtain delta don where part: "part = (delta, don)" by (cases part)
  let ?raw1 = "if delta \<noteq> [] then raw @ delta else raw"
  let ?w1 = "if delta \<noteq> [] then call_token cb idx (prune_marked ?raw1 st en) w else w"
  have c1: "calm cb idx (Suc idx) w ?w1" by (simp add: call_token_calm)
  show ?case
  proof (cases don)
    case True
    with Cons.prems part have "w' = ?w1" by (simp add: Let_def split: if_splits)
    with c1 show ?thesis by simp
  next
    case False
    with Cons.prems part have "consume_stream cb idx st en parts ?raw1 ?w1 = (raw', w')"
      by (simp add: Let_def)
    from Cons.IH[OF this] c1 show ?thesis by (blast intro: calm_trans)
  qed
qed

lemma calm_sent:
  "calm cb lo hi (w\<lparr>requests := r, inputs := xs, prompts := ps\<rparr>) w' \<Longrightarrow> calm cb lo hi w w'"
  by (simp add: calm_def)

lemma ollama_request_calm:
  assumes "ollama_request E A idx s w = (ans, w')"
  shows "calm (o_token_callback A) idx (Suc idx) w w'"
proof -
  let ?prompt = "make_prompt (glossary_str (o_glossary A)) (o_target_lang A)
                     (o_start_mark A) (o_end_mark A) s"
  let ?w1 = "w\<lparr>requests := Suc (requests w), inputs := inputs w @ [s],
                 prompts := prompts w @ [?prompt]\<rparr>"
  have base: "calm (o_token_callback A) idx (Suc idx) w ?w1" by (simp add: calm_def)
  show ?thesis
  proof (cases "o_stream A")
    case False
    with assms have "w' = ?w1"
      by (auto simp: ollama_request_def Let_def split: option.splits)
    with base show ?thesis by simp
  next
    case True
    show ?thesis
    proof (cases "generate_stream E (requests w) ?prompt")
      case None
      with True assms have "w' = ?w1" by (simp add: ollama_request_def Let_def)
      with base show ?thesis by simp
    next
      case (Some parts)
      obtain raw w2 where c: "consume_stream (o_token_callback A) idx (o_start_mark A)
          (o_end_mark A) parts [] ?w1 = (raw, w2)" by (cases "consume_stream (o_token_callback A) idx (o_start_mark A)
          (o_end_mark A) parts [] ?w1")
      with True Some assms have "w' = w2" by (simp add: ollama_request_def Let_def)
      with consume_stream_calm[OF c] show ?thesis by (simp add: calm_sent)
    qed
  qed
qed

lemma call_token_prompts [simp]: "prompts (call_token cb idx t w) = prompts w"
  by (cases cb) (simp_all add: call_token_def)

lemma consume_stream_prompts:
  "consume_stream cb idx st en parts raw w = (raw', w') \<Longrightarrow> prompts w' = prompts w"
proof (induction parts arbitrary: raw w)
  case Nil
  then show ?case by simp
next
  case (Cons part parts)
  obtain delta don where part: "part = (delta, don)" by (cases part)
  let ?raw1 = "if delta \<noteq> [] then raw @ delta else raw"
  let ?w1 = "if delta \<noteq> [] then call_token cb idx (prune_marked ?raw1 st en) w else w"
  have p1: "prompts ?w1 = prompts w" by simp
  show ?case
  proof (cases don)
    case True
    with Cons.prems part have "w' = ?w1" by (simp add: Let_def split: if_splits)
    with p1 show ?thesis by simp
  next
    case False
    with Cons.prems part have "consume_stream cb idx st en parts ?raw1 ?w1 = (raw', w')"
      by (simp add: Let_def)
    from Cons.IH[OF this] p1 show ?thesis by simp
  qed
qed

lemma ollama_request_prompts:
  assumes "ollama_request E A idx s w = (ans, w')"
  shows "prompts w' = prompts w @ [prompt_of A s]"
proof -
  let ?w1 = "w\<lparr>requests := Suc (requests w), inputs := inputs w @ [s],
                 prompts := prompts w @ [prompt_of A s]\<rparr>"
  show ?thesis
  proof (cases "o_stream A")
    case False
    with assms have "w' = ?w1"
      by (auto simp: ollama_request_def prompt_of_def Let_def split: option.splits)
    then show ?thesis by simp
  next
    case True
    show ?thesis
    proof (cases "generate_stream E (requests w) (prompt_of A s)")
      case None
      with True assms have "w' = ?w1" by (simp add: ollama_request_def prompt_of_def Let_def)
      then show ?thesis by simp
    next
      case (Some parts)
      obtain raw w2 where c: "consume_stream (o_token_callback A) idx (o_start_mark A)
          (o_end_mark A) parts [] ?w1 = (raw, w2)" by (cases "consume_stream (o_token_callback A) idx (o_start_mark A)
          (o_end_mark A) parts [] ?w1")
      with True Some assms have "w' = w2" by (simp add: ollama_request_def prompt_of_def Let_def)
      with consume_stream_prompts[OF c] show ?thesis by simp
    qed
  qed
qed

lemma ollama_request_up:
  assumes "uninterrupted E"
  shows "\<exists>raw w'. ollama_request E A idx s w = (Some raw, w')"
proof -
  let ?w1 = "w\<lparr>requests := Suc (requests w), inputs := inputs w @ [s],
                 prompts := prompts w @ [prompt_of A s]\<rparr>"
  from assms obtain raw where g: "generate E (requests w) (prompt_of A s) = Some raw"
    unfolding uninterrupted_def by fast
  from assms obtain parts where gs: "generate_stream E (requests w) (prompt_of A s) = Some parts"
    unfolding uninterrupted_def by fast
  obtain raw2 w2 where c: "consume_stream (o_token_callback A) idx (o_start_mark A)
          (o_end_mark A) parts [] ?w1 = (raw2, w2)" by (cases "consume_stream (o_token_callback A) idx (o_start_mark A)
          (o_end_mark A) parts [] ?w1")
  show ?thesis
  proof (cases "o_stream A")
    case True
    with gs c show ?thesis by (simp add: ollama_request_def prompt_of_def Let_def)
  next
    case False
    with g show ?thesis by (simp add: ollama_request_def prompt_of_def Let_def)
  qed
qed

lemma ollama_loop_Cons:
  assumes "ollama_loop E A idx (s # rest) (outs, nt, raws) w = Some (r, w')"
  obtains (cancel) "fst (cancel_is_set E w)" "r = Inr (outs, nt, raws)"
      "w' = snd (cancel_is_set E w)"
  | (fail) w1 where "\<not> fst (cancel_is_set E w)"
      "wait_while_paused E (snd (cancel_is_set E w)) = Some w1"
      "ollama_request E A idx s w1 = (None, w')" "r = Inl RuntimeError"
  | (go) w1 raw w2 where "\<not> fst (cancel_is_set E w)"
      "wait_while_paused E (snd (cancel_is_set E w)) = Some w1"
      "ollama_request E A idx s w1 = (Some raw, w2)"
      "ollama_loop E A (Suc idx) rest
         (outs @ [fst (parse_translation_and_glossary (ucd E) raw (o_glossary A)
                        (o_start_mark A) (o_end_mark A))],
          dict_update nt (snd (parse_translation_and_glossary (ucd E) raw (o_glossary A)
                        (o_start_mark A) (o_end_mark A))),
          raws @ [raw]) (after_answer E A idx raw w2) = Some (r, w')"
proof (cases "fst (cancel_is_set E w)")
  case True
  with assms show ?thesis by (intro cancel) auto
next
  case nc: False
  show ?thesis
  proof (cases "wait_while_paused E (snd (cancel_is_set E w))")
    case None
    with nc assms show ?thesis by simp
  next
    case (Some w1)
    obtain ans w2 where rq: "ollama_request E A idx s w1 = (ans, w2)"
      by (cases "ollama_request E A idx s w1")
    show ?thesis
    proof (cases ans)
      case None
      with nc Some rq assms show ?thesis by (intro fail[of w1]) auto
    next
      case (Some raw)
      with nc \<open>wait_while_paused E (snd (cancel_is_set E w)) = Some w1\<close> rq assms
      show ?thesis
        by (intro go[of w1 raw w2])
           (auto simp: after_answer_def Let_def split: prod.splits)
    qed
  qed
qed

lemma after_answer_calm: "calm (o_token_callback A) idx (Suc idx) w (after_answer E A idx raw w)"
  by (simp add: after_answer_def call_token_calm)

lemma after_answer_prompts [simp]: "prompts (after_answer E A idx raw w) = prompts w"
  by (simp add: after_answer_def)

lemma ollama_loop_calm:
  "ollama_loop E A idx sents acc w = Some (r, w') \<Longrightarrow>
   calm (o_token_callback A) idx (idx + length sents) w w'"
proof (induction sents arbitrary: idx acc w)
  case Nil
  then show ?case by simp
next
  case (Cons s rest)
  obtain outs nt raws where acc: "acc = (outs, nt, raws)" by (cases acc)
  let ?cb = "o_token_callback A"
  let ?hi = "idx + length (s # rest)"
  have q0: "calm ?cb idx ?hi w (snd (cancel_is_set E w))"
    by (rule quiet_calm[OF cancel_quiet])
  from Cons.prems[unfolded acc] show ?case
  proof (cases rule: ollama_loop_Cons)
    case cancel
    with q0 show ?thesis by simp
  next
    case (fail w1)
    have "calm ?cb idx ?hi (snd (cancel_is_set E w)) w1"
      by (rule quiet_calm[OF wait_quiet[OF fail(2)]])
    moreover have "calm ?cb idx ?hi w1 w'"
      by (rule calm_mono[OF ollama_request_calm[OF fail(3)]]) simp_all
    ultimately show ?thesis using q0 by (blast intro: calm_trans)
  next
    case (go w1 raw w2)
    have a: "calm ?cb idx ?hi (snd (cancel_is_set E w)) w1"
      by (rule quiet_calm[OF wait_quiet[OF go(2)]])
    have b: "calm ?cb idx ?hi w1 w2"
      by (rule calm_mono[OF ollama_request_calm[OF go(3)]]) simp_all
    have c: "calm ?cb idx ?hi w2 (after_answer E A idx raw w2)"
      by (rule calm_mono[OF after_answer_calm]) simp_all
    have d: "calm ?cb idx ?hi (after_answer E A idx raw w2) w'"
      by (rule calm_mono[OF Cons.IH[OF go(4)]]) simp_all
    from q0 a b c d show ?thesis by (blast intro: calm_trans)
  qed
qed

lemma ollama_loop_result:
  "ollama_loop E A idx sents (outs, nt, raws) w = Some (Inr (o1, n1, r1), w') \<Longrightarrow>
   \<exists>o' r'. o1 = outs @ o' \<and> r1 = raws @ r' \<and> length o' = length r'
     \<and> length o' \<le> length sents
     \<and> prompts w' = prompts w @ map (prompt_of A) (take (length o') sents)"
proof (induction sents arbitrary: idx outs nt raws w)
  case Nil
  then show ?case by simp
next
  case (Cons s rest)
  from Cons.prems show ?case
  proof (cases rule: ollama_loop_Cons)
    case cancel
    then show ?thesis using quiet_fields[OF cancel_quiet[of w E]] by simp
  next
    case (fail w1)
    then show ?thesis by simp
  next
    case (go w1 raw w2)
    from Cons.IH[OF go(4)] obtain o' r' where
      1: "o1 = (outs @ [fst (parse_translation_and_glossary (ucd E) raw (o_glossary A)
                        (o_start_mark A) (o_end_mark A))]) @ o'"
        "r1 = (raws @ [raw]) @ r'" "length o' = length r'" "length o' \<le> length rest"
        "prompts w' = prompts (after_answer E A idx raw w2)
                        @ map (prompt_of A) (take (length o') rest)"
      by blast
    have p: "prompts w2 = prompts w @ [prompt_of A s]"
      using ollama_request_prompts[OF go(3)] quiet_fields[OF wait_quiet[OF go(2)]]
        quiet_fields[OF cancel_quiet[of w E]] by simp
    show ?thesis
      by (rule exI[of _ "fst (parse_translation_and_glossary (ucd E) raw (o_glossary A)
                        (o_start_mark A) (o_end_mark A)) # o'"], rule exI[of _ "raw # r'"])
         (use 1 p in simp)
  qed
qed

lemma ollama_loop_total:
  "uninterrupted E \<Longrightarrow>
   \<exists>o1 n1 r1 w'. ollama_loop E A idx sents (outs, nt, raws) w = Some (Inr (o1, n1, r1), w')
      \<and> length o1 = length outs + length sents"
proof (induction sents arbitrary: idx outs nt raws w)
  case Nil
  then show ?case by simp
next
  case (Cons s rest)
  from Cons.prems have nc: "\<not> fst (cancel_is_set E w)" by (simp add: uninterrupted_def)
  from wait_ends[OF Cons.prems, of "snd (cancel_is_set E w)"]
  obtain w1 where w1: "wait_while_paused E (snd (cancel_is_set E w)) = Some w1" by fast
  from ollama_request_up[OF Cons.prems] obtain raw w2 where
    rq: "ollama_request E A idx s w1 = (Some raw, w2)" by blast
  obtain cleaned updates where pr: "parse_translation_and_glossary (ucd E) raw (o_glossary A)
                        (o_start_mark A) (o_end_mark A) = (cleaned, updates)"
    by (cases "parse_translation_and_glossary (ucd E) raw (o_glossary A)
                        (o_start_mark A) (o_end_mark A)")
  from Cons.IH[OF Cons.prems, of "Suc idx" "outs @ [cleaned]" "dict_update nt updates"
      "raws @ [raw]" "if \<not> o_stream A then call_token (o_token_callback A) idx cleaned w2 else w2"]
  show ?case using nc w1 rq pr by (auto simp: Let_def)
qed

lemma pipeline_loop_Cons:
  assumes "pipeline_loop E (s # rest) outs w = Some (o1, w')"
  obtains (cancel) "fst (cancel_is_set E w)" "o1 = outs" "w' = snd (cancel_is_set E w)"
  | (go) w1 where "\<not> fst (cancel_is_set E w)"
      "wait_while_paused E (snd (cancel_is_set E w)) = Some w1"
      "pipeline_loop E rest (outs @ [pipeline_translate E (requests w1) s])
         (w1\<lparr>requests := Suc (requests w1), inputs := inputs w1 @ [s]\<rparr>) = Some (o1, w')"
proof (cases "fst (cancel_is_set E w)")
  case True
  with assms show ?thesis by (intro cancel) auto
next
  case nc: False
  show ?thesis
  proof (cases "wait_while_paused E (snd (cancel_is_set E w))")
    case None
    with nc assms show ?thesis by simp
  next
    case (Some w1)
    with nc assms show ?thesis by (intro go[of w1]) auto
  qed
qed

lemma pipeline_loop_calm:
  "pipeline_loop E sents outs w = Some (o1, w') \<Longrightarrow>
   calm cb lo hi w w' \<and> prompts w' = prompts w"
proof (induction sents arbitrary: outs w)
  case Nil
  then show ?case by simp
next
  case (Cons s rest)
  note q0 = cancel_quiet[of w E]
  from Cons.prems show ?case
  proof (cases rule: pipeline_loop_Cons)
    case cancel
    with quiet_calm[OF q0] quiet_fields[OF q0] show ?thesis by simp
  next
    case (go w1)
    note q1 = wait_quiet[OF go(2)]
    have q2: "calm cb lo hi w1 (w1\<lparr>requests := Suc (requests w1), inputs := inputs w1 @ [s]\<rparr>)"
      by (simp add: calm_def)
    from Cons.IH[OF go(3)] quiet_calm[OF q0, of cb lo hi] quiet_calm[OF q1, of cb lo hi] q2
    have "calm cb lo hi w w'" by (blast intro: calm_trans)
    moreover from Cons.IH[OF go(3)] quiet_fields[OF q0] quiet_fields[OF q1]
    have "prompts w' = prompts w" by simp
    ultimately show ?thesis ..
  qed
qed

lemma pipeline_loop_result:
  "pipeline_loop E sents outs w = Some (o1, w') \<Longrightarrow> length o1 \<le> length outs + length sents"
proof (induction sents arbitrary: outs w)
  case Nil
  then show ?case by simp
next
  case (Cons s rest)
  from Cons.prems show ?case
  proof (cases rule: pipeline_loop_Cons)
    case cancel
    then show ?thesis by simp
  next
    case (go w1)
    from Cons.IH[OF go(3)] show ?thesis by simp
  qed
qed

lemma pipeline_loop_total:
  "uninterrupted E \<Longrightarrow>
   \<exists>o1 w'. pipeline_loop E sents outs w = Some (o1, w') \<and> length o1 = length outs + length sents"
proof (induction sents arbitrary: outs w)
  case Nil
  then show ?case by simp
next
  case (Cons s rest)
  from Cons.prems have nc: "\<not> fst (cancel_is_set E w)" by (simp add: uninterrupted_def)
  from wait_ends[OF Cons.prems, of "snd (cancel_is_set E w)"]
  obtain w1 where w1: "wait_while_paused E (snd (cancel_is_set E w)) = Some w1" by fast
  from Cons.IH[OF Cons.prems, of "outs @ [pipeline_translate E (requests w1) s]"
      "w1\<lparr>requests := Suc (requests w1), inputs := inputs w1 @ [s]\<rparr>"]
  show ?case using nc w1 by auto
qed

lemma translate_sentences_calm:
  assumes "translate_sentences E tgt uo cb g st en sents w = Some (r, w')"
  shows "calm cb 0 (length sents) w w'"
proof (cases uo)
  case True
  with assms have "ollama_loop E (args_of tgt cb g st en) 0 sents ([], [], []) w = Some (r, w')"
    by (simp add: translate_sentences_def translate_with_ollama_def args_of_def)
  from ollama_loop_calm[OF this] show ?thesis by (simp add: args_of_def)
next
  case False
  with assms obtain o1 where "pipeline_loop E sents [] w = Some (o1, w')"
    by (auto simp: translate_sentences_def split: option.splits)
  from pipeline_loop_calm[OF this] show ?thesis by simp
qed

lemma translate_sentences_result:
  assumes "translate_sentences E tgt uo cb g st en sents w = Some (Inr (o1, ups, r1), w')"
  shows "length o1 = length r1 \<and> length o1 \<le> length sents
         \<and> (if uo then prompts w' = prompts w
                     @ map (prompt_of (args_of tgt cb g st en)) (take (length o1) sents)
            else prompts w' = prompts w)"
proof (cases uo)
  case True
  with assms have "ollama_loop E (args_of tgt cb g st en) 0 sents ([], [], []) w
                     = Some (Inr (o1, ups, r1), w')"
    by (simp add: translate_sentences_def translate_with_ollama_def args_of_def)
  from ollama_loop_result[OF this] True show ?thesis by auto
next
  case False
  with assms have p: "pipeline_loop E sents [] w = Some (o1, w')" and "r1 = o1"
    by (auto simp: translate_sentences_def split: option.splits)
  with pipeline_loop_result[OF p] pipeline_loop_calm[OF p] False show ?thesis by simp
qed

lemma translate_sentences_total:
  assumes "uninterrupted E"
  shows "\<exists>o1 ups r1 w'. translate_sentences E tgt uo cb g st en sents w
            = Some (Inr (o1, ups, r1), w') \<and> length o1 = length sents"
proof (cases uo)
  case True
  from ollama_loop_total[OF assms, of "args_of tgt cb g st en" 0 sents "[]" "[]" "[]" w]
  show ?thesis using True
    by (auto simp: translate_sentences_def translate_with_ollama_def args_of_def)
next
  case False
  from pipeline_loop_total[OF assms, of sents "[]" w]
  show ?thesis using False by (auto simp: translate_sentences_def)
qed

lemma merge_outputs_lookup:
  "merge_outputs U g start idx zs (tr, rm) = (tr', rm') \<Longrightarrow>
   tr' i = (case tr i of
              Some v \<Rightarrow> Some v
            | None \<Rightarrow> if start + idx \<le> i \<and> i < start + idx + length zs
                      then Some (cleaned_output U g (fst (zs ! (i - (start + idx)))))
                      else None)
   \<and> rm' i = (case rm i of
              Some v \<Rightarrow> Some v
            | None \<Rightarrow> if start + idx \<le> i \<and> i < start + idx + length zs
                      then Some (snd (zs ! (i - (start + idx))))
                      else None)"
proof (induction zs arbitrary: idx tr rm)
  case Nil
  then show ?case by (auto split: option.splits)
next
  case (Cons z zs)
  obtain out raw where z: "z = (out, raw)" by (cases z)
  let ?sid = "start + idx"
  let ?tr1 = "setdefault tr ?sid (cleaned_output U g out)"
  let ?rm1 = "setdefault rm ?sid raw"
  from Cons.prems z have "merge_outputs U g start (Suc idx) zs (?tr1, ?rm1) = (tr', rm')"
    by (simp add: Let_def cleaned_output_def)
  note IH = Cons.IH[OF this]
  show ?case
  proof (cases "i = ?sid")
    case True
    with IH z show ?thesis by (auto simp: setdefault_def split: option.splits)
  next
    case False
    then have "?tr1 i = tr i" "?rm1 i = rm i" by (auto simp: setdefault_def split: option.splits)
    moreover have "(start + Suc idx \<le> i) = (?sid \<le> i)" using False by auto
    moreover have "?sid \<le> i \<Longrightarrow> (z # zs) ! (i - ?sid) = zs ! (i - (start + Suc idx))"
      using False by (auto simp: nth_Cons')
    ultimately show ?thesis using IH by (auto split: option.splits)
  qed
qed

lemma finish_windowD:
  assumes "finish_window E C ss step start (window_sents ss start (c_window C)) r
               (tr, rm, au) w1 w2 = (st1, w3)"
  shows "\<exists>tr1 rm1. st1 = (tr1, rm1, dict_update au (fst (snd r)))
     \<and> (\<forall>i. tr1 i = (case tr i of Some v \<Rightarrow> Some v
                      | None \<Rightarrow> kept_translation (ucd E) (c_glossary C)
                                  [batch_of C ss start r w1 w2] i))
     \<and> (\<forall>i. rm1 i = (case rm i of Some v \<Rightarrow> Some v
                      | None \<Rightarrow> kept_raw [batch_of C ss start r w1 w2] i))"
    and "batches w3 = batches w2 @ [batch_of C ss start r w1 w2]"
    and "tokens w3 = tokens w2" and "prompts w3 = prompts w2"
    and "requests w3 = requests w2" and "inputs w3 = inputs w2"
proof -
  obtain outs ups raws where r: "r = (outs, ups, raws)" by (cases r)
  obtain tr1 rm1 where m: "merge_outputs (ucd E) (c_glossary C) start 0 (zip outs raws) (tr, rm)
      = (tr1, rm1)" by (cases "merge_outputs (ucd E) (c_glossary C) start 0 (zip outs raws) (tr, rm)")
  have au: "(if ups \<noteq> [] then dict_update au ups else au) = dict_update au ups"
    by (simp add: dict_update_def)
  from assms r m have st1: "st1 = (tr1, rm1, dict_update au ups)"
    by (simp add: finish_window_def Let_def au)
  from assms r m show "batches w3 = batches w2 @ [batch_of C ss start r w1 w2]"
    by (auto simp: finish_window_def Let_def batch_of_def)
  from assms r m show "tokens w3 = tokens w2" by (auto simp: finish_window_def Let_def)
  from assms r m show "prompts w3 = prompts w2" by (auto simp: finish_window_def Let_def)
  from assms r m show "requests w3 = requests w2" by (auto simp: finish_window_def Let_def)
  from assms r m show "inputs w3 = inputs w2" by (auto simp: finish_window_def Let_def)
  have "tr1 i = (case tr i of Some v \<Rightarrow> Some v
                      | None \<Rightarrow> kept_translation (ucd E) (c_glossary C)
                                  [batch_of C ss start r w1 w2] i)"
    and "rm1 i = (case rm i of Some v \<Rightarrow> Some v
                      | None \<Rightarrow> kept_raw [batch_of C ss start r w1 w2] i)" for i
    using merge_outputs_lookup[OF m, of i] r
    by (auto simp: kept_translation_def kept_raw_def first_cover_def covers_def batch_of_def
          split: option.splits)
  with st1 r show "\<exists>tr1 rm1. st1 = (tr1, rm1, dict_update au (fst (snd r)))
     \<and> (\<forall>i. tr1 i = (case tr i of Some v \<Rightarrow> Some v
                      | None \<Rightarrow> kept_translation (ucd E) (c_glossary C)
                                  [batch_of C ss start r w1 w2] i))
     \<and> (\<forall>i. rm1 i = (case rm i of Some v \<Rightarrow> Some v
                      | None \<Rightarrow> kept_raw [batch_of C ss start r w1 w2] i))"
    by simp
qed

lemma window_loop_Cons:
  assumes "window_loop E C ss step (start # starts) st w = Some (r, w')"
  obtains (cancel) "fst (cancel_is_set E w)" "r = Inr st" "w' = snd (cancel_is_set E w)"
  | (fail) w1 e where "\<not> fst (cancel_is_set E w)"
      "wait_while_paused E (snd (cancel_is_set E w)) = Some w1"
      "translate_sentences E (c_target_lang C) (c_use_ollama C) (window_callback C start)
         (c_glossary C) START_MARK END_MARK (window_sents ss start (c_window C)) w1
         = Some (Inl e, w')" "r = Inl e"
  | (go) w1 res w2 st1 w3 where "\<not> fst (cancel_is_set E w)"
      "wait_while_paused E (snd (cancel_is_set E w)) = Some w1"
      "translate_sentences E (c_target_lang C) (c_use_ollama C) (window_callback C start)
         (c_glossary C) START_MARK END_MARK (window_sents ss start (c_window C)) w1
         = Some (Inr res, w2)"
      "finish_window E C ss step start (window_sents ss start (c_window C)) res st w1 w2 = (st1, w3)"
      "window_loop E C ss step starts st1 w3 = Some (r, w')"
proof (cases "fst (cancel_is_set E w)")
  case True
  with assms show ?thesis by (intro cancel) auto
next
  case nc: False
  show ?thesis
  proof (cases "wait_while_paused E (snd (cancel_is_set E w))")
    case None
    with nc assms show ?thesis by simp
  next
    case w1: (Some w1)
    show ?thesis
    proof (cases "translate_sentences E (c_target_lang C) (c_use_ollama C) (window_callback C start)
         (c_glossary C) START_MARK END_MARK (window_sents ss start (c_window C)) w1")
      case None
      with nc w1 assms show ?thesis by (simp add: window_callback_def Let_def)
    next
      case (Some p)
      obtain x w2 where p: "p = (x, w2)" by (cases p)
      show ?thesis
      proof (cases x)
        case (Inl e)
        with nc w1 Some p assms show ?thesis
          by (intro fail[of w1 e]) (auto simp: window_callback_def Let_def)
      next
        case (Inr res)
        obtain st1 w3 where f: "finish_window E C ss step start (window_sents ss start (c_window C)) res st w1 w2 = (st1, w3)"
          by (cases "finish_window E C ss step start (window_sents ss start (c_window C)) res st w1 w2")
        with Inr nc w1 Some p assms show ?thesis
          by (intro go[of w1 res w2 st1 w3]) (auto simp: window_callback_def Let_def)
      qed
    qed
  qed
qed

lemma kept_translation_Cons:
  "kept_translation U g (b # bs) i =
     (if covers b i then Some (cleaned_output U g (b_outs b ! (i - b_start b)))
      else kept_translation U g bs i)"
  by (simp add: kept_translation_def first_cover_def)

lemma kept_raw_Cons:
  "kept_raw (b # bs) i =
     (if covers b i then Some (b_raws b ! (i - b_start b)) else kept_raw bs i)"
  by (simp add: kept_raw_def first_cover_def)

lemma run_facts_Nil: "quiet w w' \<Longrightarrow> run_facts E C ss starts st w [] st w'"
  by (auto simp: run_facts_def kept_translation_def kept_raw_def first_cover_def
        dest: quiet_fields split: option.splits)

lemma calmD:
  "calm cb lo hi w w' \<Longrightarrow>
   \<exists>new. tokens w' = tokens w @ new
      \<and> (\<forall>j t. (j, t) \<in> set new \<longrightarrow> (\<exists>f i. cb = Some f \<and> lo \<le> i \<and> i < hi \<and> j = f i))"
  unfolding calm_def by fast

lemma first_batch_shaped:
  assumes ts: "translate_sentences E (c_target_lang C) (c_use_ollama C) (window_callback C start)
         (c_glossary C) START_MARK END_MARK (window_sents ss start (c_window C)) w1
         = Some (Inr res, w2)"
  shows "shaped C ss (batch_of C ss start res w1 w2)"
    and "tokens w2 = tokens w1 @ b_tokens (batch_of C ss start res w1 w2)"
    and "batches w2 = batches w1"
    and "if c_use_ollama C
         then prompts w2 = prompts w1 @ batch_prompts C (batch_of C ss start res w1 w2)
         else prompts w2 = prompts w1"
proof -
  obtain outs ups raws where res: "res = (outs, ups, raws)" by (cases res)
  let ?n = "length (window_sents ss start (c_window C))"
  from translate_sentences_calm[OF ts]
  have calm: "calm (window_callback C start) 0 ?n w1 w2" .
  from calm show b: "batches w2 = batches w1" by (rule calmE)
  from calmD[OF calm] obtain new where new: "tokens w2 = tokens w1 @ new"
    "\<And>j t. (j, t) \<in> set new \<Longrightarrow>
        \<exists>f i. window_callback C start = Some f \<and> 0 \<le> i \<and> i < ?n \<and> j = f i"
    by blast
  from new(1) show t: "tokens w2 = tokens w1 @ b_tokens (batch_of C ss start res w1 w2)"
    by (simp add: batch_of_def)
  from translate_sentences_result[OF ts[unfolded res]]
  have len: "length outs = length raws" "length outs \<le> ?n"
    and pr: "if c_use_ollama C
      then prompts w2 = prompts w1 @ map (prompt_of (args_of (c_target_lang C)
              (window_callback C start) (c_glossary C) START_MARK END_MARK))
              (take (length outs) (window_sents ss start (c_window C)))
      else prompts w2 = prompts w1"
    by simp_all
  have po: "prompt_of (args_of (c_target_lang C) (window_callback C start) (c_glossary C)
              START_MARK END_MARK)
           = make_prompt (glossary_str (c_glossary C)) (c_target_lang C) START_MARK END_MARK"
    by (rule ext) (simp add: prompt_of_def args_of_def)
  from pr show "if c_use_ollama C
         then prompts w2 = prompts w1 @ batch_prompts C (batch_of C ss start res w1 w2)
         else prompts w2 = prompts w1"
    by (simp add: batch_prompts_def batch_of_def res po)
  have tok: "c_token_callback C \<and> start \<le> j \<and> j < start + ?n" if "(j, t) \<in> set new" for j t
  proof -
    from new(2)[OF that] obtain f i where "window_callback C start = Some f" "i < ?n" "j = f i"
      by fast
    then show ?thesis by (auto simp: window_callback_def split: if_splits)
  qed
  show "shaped C ss (batch_of C ss start res w1 w2)"
    using len tok new(1) by (auto simp: shaped_def batch_of_def res list_all_iff)
qed

lemma run_facts_Cons:
  assumes nc: "quiet w w1"
    and ts: "translate_sentences E (c_target_lang C) (c_use_ollama C) (window_callback C start)
         (c_glossary C) START_MARK END_MARK (window_sents ss start (c_window C)) w1
         = Some (Inr res, w2)"
    and fin: "finish_window E C ss step start (window_sents ss start (c_window C)) res st w1 w2 = (st1, w3)"
    and rest: "run_facts E C ss starts st1 w3 bs st' w'"
  shows "run_facts E C ss (start # starts) st w (batch_of C ss start res w1 w2 # bs) st' w'"
proof -
  let ?b = "batch_of C ss start res w1 w2"
  obtain tr rm au where st: "st = (tr, rm, au)" by (cases st rule: prod_cases3) blast
  note f = finish_windowD[OF fin[unfolded st]]
  from f(1) obtain tr1 rm1 where st1: "st1 = (tr1, rm1, dict_update au (fst (snd res)))"
    and tr1: "\<And>i. tr1 i = (case tr i of Some v \<Rightarrow> Some v
                      | None \<Rightarrow> kept_translation (ucd E) (c_glossary C) [?b] i)"
    and rm1: "\<And>i. rm1 i = (case rm i of Some v \<Rightarrow> Some v | None \<Rightarrow> kept_raw [?b] i)"
    by blast
  note q = quiet_fields[OF nc]
  note fb = first_batch_shaped[OF ts]
  from rest have r1: "batches w' = batches w3 @ bs"
    and r2: "\<And>i. fst st' i = (case tr1 i of Some v \<Rightarrow> Some v
                           | None \<Rightarrow> kept_translation (ucd E) (c_glossary C) bs i)"
    and r3: "\<And>i. fst (snd st') i = (case rm1 i of Some v \<Rightarrow> Some v | None \<Rightarrow> kept_raw bs i)"
    and r4: "snd (snd st') = fold (\<lambda>b d. dict_update d (b_updates b)) bs
                               (dict_update au (fst (snd res)))"
    and r5: "tokens w' = tokens w3 @ concat (map b_tokens bs)"
    and r6: "map b_start bs = take (length bs) starts"
    and r7: "list_all (shaped C ss) bs"
    and r8: "if c_use_ollama C then prompts w' = prompts w3 @ concat (map (batch_prompts C) bs)
          else prompts w' = prompts w3"
    unfolding run_facts_def st1 by simp_all
  have c1: "batches w' = batches w @ ?b # bs" using r1 f(2) fb(3) q by simp
  have c2: "fst st' i = (case fst st i of Some v \<Rightarrow> Some v
                           | None \<Rightarrow> kept_translation (ucd E) (c_glossary C) (?b # bs) i)" for i
    using r2[of i] tr1[of i]
    by (auto simp: st kept_translation_Cons kept_translation_def first_cover_def
          split: option.splits if_splits)
  have c3: "fst (snd st') i = (case fst (snd st) i of Some v \<Rightarrow> Some v
                           | None \<Rightarrow> kept_raw (?b # bs) i)" for i
    using r3[of i] rm1[of i]
    by (auto simp: st kept_raw_Cons kept_raw_def first_cover_def split: option.splits if_splits)
  have c4: "snd (snd st') = fold (\<lambda>b d. dict_update d (b_updates b)) (?b # bs) (snd (snd st))"
    using r4 by (simp add: st batch_of_def)
  have c5: "tokens w' = tokens w @ concat (map b_tokens (?b # bs))"
    using r5 f(3) fb(2) q by simp
  have c6: "map b_start (?b # bs) = take (length (?b # bs)) (start # starts)"
    using r6 by (simp add: batch_of_def)
  have c7: "list_all (shaped C ss) (?b # bs)" using r7 fb(1) by simp
  have c8: "if c_use_ollama C
            then prompts w' = prompts w @ concat (map (batch_prompts C) (?b # bs))
            else prompts w' = prompts w"
    using r8 f(4) fb(4) q by (simp split: if_splits)
  show ?thesis unfolding run_facts_def using c1 c2 c3 c4 c5 c6 c7 c8 by blast
qed

lemma window_loop_explained:
  "window_loop E C ss step starts st w = Some (Inr st', w') \<Longrightarrow>
   \<exists>bs. run_facts E C ss starts st w bs st' w'"
proof (induction starts arbitrary: st w)
  case Nil
  then have "st' = st" "w' = w" by simp_all
  with run_facts_Nil[OF quiet_refl, of E C ss "[]" st w] show ?case by blast
next
  case (Cons start starts)
  from Cons.prems show ?case
  proof (cases rule: window_loop_Cons)
    case cancel
    have "run_facts E C ss (start # starts) st w [] st (snd (cancel_is_set E w))"
      by (rule run_facts_Nil[OF cancel_quiet])
    with cancel show ?thesis by blast
  next
    case (fail w1 e)
    then show ?thesis by simp
  next
    case (go w1 res w2 st1 w3)
    from Cons.IH[OF go(5)] obtain bs where bs: "run_facts E C ss starts st1 w3 bs st' w'" ..
    have q: "quiet w w1"
      by (rule quiet_trans[OF cancel_quiet wait_quiet[OF go(2)]])
    from run_facts_Cons[OF q go(3) go(4) bs] show ?thesis ..
  qed
qed

lemma window_loop_total:
  assumes "uninterrupted E"
  shows "\<exists>st' w' bs. window_loop E C ss step starts st w = Some (Inr st', w')
           \<and> batches w' = batches w @ bs \<and> length bs = length starts
           \<and> list_all (\<lambda>b. length (b_outs b) = length (b_sents b)) bs"
proof (induction starts arbitrary: st w)
  case Nil
  show ?case by (intro exI[of _ st] exI[of _ w] exI[of _ "[]"]) simp
next
  case (Cons start starts)
  from assms have nc: "\<not> fst (cancel_is_set E w)" by (simp add: uninterrupted_def)
  from wait_ends[OF assms, of "snd (cancel_is_set E w)"]
  obtain w1 where w1: "wait_while_paused E (snd (cancel_is_set E w)) = Some w1" by fast
  from translate_sentences_total[OF assms] obtain outs ups raws w2 where
    ts: "translate_sentences E (c_target_lang C) (c_use_ollama C) (window_callback C start)
         (c_glossary C) START_MARK END_MARK (window_sents ss start (c_window C)) w1
         = Some (Inr (outs, ups, raws), w2)"
    and len: "length outs = length (window_sents ss start (c_window C))" by blast
  obtain st1 w3 where fin: "finish_window E C ss step start (window_sents ss start (c_window C))
                     (outs, ups, raws) st w1 w2 = (st1, w3)"
    by (cases "finish_window E C ss step start (window_sents ss start (c_window C))
                     (outs, ups, raws) st w1 w2")
  obtain tr rm au where st: "st = (tr, rm, au)" by (cases st rule: prod_cases3) blast
  note f = finish_windowD[OF fin[unfolded st]]
  note fb = first_batch_shaped[OF ts]
  have q: "batches w1 = batches w"
    using quiet_fields[OF quiet_trans[OF cancel_quiet wait_quiet[OF w1]]] by simp
  from Cons.IH[of st1 w3] obtain st' w' bs where
    r: "window_loop E C ss step starts st1 w3 = Some (Inr st', w')"
      "batches w' = batches w3 @ bs" "length bs = length starts"
      "list_all (\<lambda>b. length (b_outs b) = length (b_sents b)) bs" by blast
  have step: "window_loop E C ss step (start # starts) st w = Some (Inr st', w')"
    using nc w1 ts fin r(1) by (simp add: window_callback_def Let_def)
  let ?b = "batch_of C ss start (outs, ups, raws) w1 w2"
  have "batches w' = batches w @ ?b # bs" using r(2) f(2) fb(3) q by simp
  moreover have "length (b_outs ?b) = length (b_sents ?b)" using len by (simp add: batch_of_def)
  ultimately show ?case using step r(3,4)
    by (intro exI[of _ st'] exI[of _ w'] exI[of _ "?b # bs"]) simp
qed

lemma lookup_all_Inr:
  "lookup_all m ids = Inr vs \<longleftrightarrow> list_all (\<lambda>i. m i \<noteq> None) ids \<and> vs = map (\<lambda>i. the (m i)) ids"
proof (induction ids arbitrary: vs)
  case Nil
  show ?case by auto
next
  case (Cons i ids)
  note IH = Cons.IH[of "map (\<lambda>i. the (m i)) ids"]
  show ?case
  proof (cases "m i")
    case None
    then show ?thesis by simp
  next
    case (Some v)
    show ?thesis
    proof (cases "lookup_all m ids")
      case (Inl e)
      with IH have "\<not> list_all (\<lambda>i. m i \<noteq> None) ids" by simp
      with Some Inl show ?thesis by simp
    next
      case (Inr ws)
      with Cons.IH[of ws] have "list_all (\<lambda>i. m i \<noteq> None) ids" "ws = map (\<lambda>i. the (m i)) ids"
        by simp_all
      with Some Inr show ?thesis by auto
    qed
  qed
qed

lemma range_from_cover:
  "0 < step \<Longrightarrow> i \<le> j \<Longrightarrow> j < stop \<Longrightarrow>
   \<exists>s \<in> set (range_from i stop step). s \<le> j \<and> j < s + step"
proof (induction i stop step rule: range_from.induct)
  case (1 i stop step)
  from "1.prems" have lt: "i < stop" by simp
  show ?case
  proof (cases "j < i + step")
    case True
    with lt "1.prems" show ?thesis by (subst range_from.simps) auto
  next
    case False
    with "1.IH" "1.prems" lt
    have "\<exists>s \<in> set (range_from (i + step) stop step). s \<le> j \<and> j < s + step" by simp
    with lt "1.prems" show ?thesis by (subst range_from.simps) auto
  qed
qed

lemma range_from_less: "s \<in> set (range_from i stop step) \<Longrightarrow> s < stop"
proof (induction i stop step rule: range_from.induct)
  case (1 i stop step)
  show ?case
  proof (cases "i < stop \<and> 0 < step")
    case True
    with "1.prems" have "s = i \<or> s \<in> set (range_from (i + step) stop step)"
      by (subst (asm) range_from.simps) auto
    with True "1.IH" show ?thesis by auto
  next
    case False
    with "1.prems" show ?thesis by (subst (asm) range_from.simps) auto
  qed
qed

lemma below_count:
  fixes a n step :: nat
  assumes "0 < step"
  shows "a < (n + step - 1) div step \<longleftrightarrow> a * step < n"
proof -
  have "a < (n + step - 1) div step \<longleftrightarrow> \<not> ((n + step - 1) div step < Suc a)" by auto
  also have "\<dots> \<longleftrightarrow> \<not> (n + step - 1 < Suc a * step)"
    using assms by (simp add: div_less_iff_less_mult)
  also have "\<dots> \<longleftrightarrow> a * step < n" using assms by auto
  finally show ?thesis .
qed

lemma range_from_multiples:
  assumes "0 < step"
  shows "range_from (a * step) n step = map (\<lambda>k. k * step) [a..<(n + step - 1) div step]"
proof (induction "(n + step - 1) div step - a" arbitrary: a)
  case 0
  then have "\<not> a < (n + step - 1) div step" by simp
  with below_count[OF assms] have "\<not> a * step < n" by simp
  with 0 show ?case by (subst range_from.simps) simp
next
  case (Suc d)
  then have lt: "a < (n + step - 1) div step" by simp
  with below_count[OF assms] have "a * step < n" by simp
  moreover from Suc have "d = (n + step - 1) div step - Suc a" by simp
  from Suc.hyps(1)[OF this]
  have IH: "range_from (Suc a * step) n step
          = map (\<lambda>k. k * step) [Suc a..<(n + step - 1) div step]" .
  have eq: "a * step + step = Suc a * step" by simp
  ultimately have "range_from (a * step) n step = a * step # range_from (Suc a * step) n step"
    using assms by (subst range_from.simps) (simp only: eq if_True simp_thms)
  with IH lt show ?case by (simp only: upt_conv_Cons list.map)
qed

lemma py_slice_window:
  "0 \<le> window \<Longrightarrow> py_slice xs start (int start + window) = take (nat window) (drop start xs)"
proof -
  assume w: "0 \<le> window"
  have "nat (min (int start + window) (int (length xs))) - start
          = min (nat window) (length xs - start)"
    using w by (auto simp: min_def)
  with w show ?thesis by (simp add: py_slice_def Let_def min_def)
qed

lemma window_sents_length:
  "0 \<le> window \<Longrightarrow> length (window_sents ss start window) = min (nat window) (length ss - start)"
  by (simp add: window_sents_def py_slice_window)

lemma window_sents_nth:
  assumes "0 \<le> window" and "k < length (window_sents ss start window)"
  shows "window_sents ss start window ! k = tag (start + k) (ss ! (start + k))"
proof -
  from assms have k: "k < min (nat window) (length ss - start)"
    by (simp add: window_sents_length)
  then have "start \<le> length ss" by linarith
  then have "drop start ss ! k = ss ! (start + k)" by (rule nth_drop)
  with k show ?thesis using assms(1)
    by (simp add: window_sents_def py_slice_window nth_enumerate_eq)
qed

lemma twc_unfold:
  assumes "ss \<noteq> []"
  shows "translate_with_context E C ss w =
     (case window_loop E C ss (step_of C) (range_from 0 (length ss) (step_of C))
             (Map.empty, Map.empty, []) w of
        None \<Rightarrow> None
      | Some (Inl e, w1) \<Rightarrow> Some (Inl e, w1)
      | Some (Inr (translated, raw_map, all_updates), w1) \<Rightarrow>
          (case lookup_all translated [0..<length ss] of
             Inl e \<Rightarrow> Some (Inl e, w1)
           | Inr ts \<Rightarrow>
               (case lookup_all raw_map [0..<length ss] of
                  Inl e \<Rightarrow> Some (Inl e, w1)
                | Inr rs \<Rightarrow> Some (Inr (ts, all_updates, rs), w1))))"
  using assms by (simp add: translate_with_context_def step_of_def Let_def)

lemma twc_Inr:
  assumes "ss \<noteq> []" and "translate_with_context E C ss w = Some (Inr (ts, ups, rs), w')"
  obtains tr' rm' where
    "window_loop E C ss (step_of C) (range_from 0 (length ss) (step_of C))
       (Map.empty, Map.empty, []) w = Some (Inr (tr', rm', ups), w')"
    "lookup_all tr' [0..<length ss] = Inr ts" "lookup_all rm' [0..<length ss] = Inr rs"
  using assms(2) unfolding twc_unfold[OF assms(1)]
  by (auto split: option.splits sum.splits prod.splits)

lemma twc_explained:
  assumes "translate_with_context E C ss w = Some (Inr (ts, ups, rs), w')"
  shows "\<exists>bs. batches w' = batches w @ bs
     \<and> length ts = length ss \<and> length rs = length ss
     \<and> (\<forall>i. i < length ss \<longrightarrow>
           Some (ts ! i) = kept_translation (ucd E) (c_glossary C) bs i
           \<and> Some (rs ! i) = kept_raw bs i)
     \<and> ups = fold (\<lambda>b d. dict_update d (b_updates b)) bs []
     \<and> tokens w' = tokens w @ concat (map b_tokens bs)
     \<and> list_all (shaped C ss) bs
     \<and> (if c_use_ollama C then prompts w' = prompts w @ concat (map (batch_prompts C) bs)
         else prompts w' = prompts w)"
proof (cases "ss = []")
  case True
  with assms show ?thesis
    by (intro exI[of _ "[]"]) (auto simp: translate_with_context_def)
next
  case False
  from twc_Inr[OF False assms] obtain tr' rm' where
    wl: "window_loop E C ss (step_of C) (range_from 0 (length ss) (step_of C))
       (Map.empty, Map.empty, []) w = Some (Inr (tr', rm', ups), w')"
    and lt: "lookup_all tr' [0..<length ss] = Inr ts"
    and lr: "lookup_all rm' [0..<length ss] = Inr rs" by blast
  from window_loop_explained[OF wl] obtain bs where
    rf: "run_facts E C ss (range_from 0 (length ss) (step_of C)) (Map.empty, Map.empty, []) w bs
           (tr', rm', ups) w'" ..
  from rf have tr: "\<And>i. tr' i = kept_translation (ucd E) (c_glossary C) bs i"
    and rm: "\<And>i. rm' i = kept_raw bs i"
    unfolding run_facts_def by simp_all
  from lt have t1: "list_all (\<lambda>i. tr' i \<noteq> None) [0..<length ss]"
    and t2: "ts = map (\<lambda>i. the (tr' i)) [0..<length ss]" by (simp_all add: lookup_all_Inr)
  from lr have r1: "list_all (\<lambda>i. rm' i \<noteq> None) [0..<length ss]"
    and r2: "rs = map (\<lambda>i. the (rm' i)) [0..<length ss]" by (simp_all add: lookup_all_Inr)
  have "Some (ts ! i) = kept_translation (ucd E) (c_glossary C) bs i \<and> Some (rs ! i) = kept_raw bs i"
    if "i < length ss" for i
  proof -
    from that t1 have "tr' i \<noteq> None" by (simp add: list_all_iff)
    moreover from that r1 have "rm' i \<noteq> None" by (simp add: list_all_iff)
    moreover from that t2 have "ts ! i = the (tr' i)" by simp
    moreover from that r2 have "rs ! i = the (rm' i)" by simp
    ultimately show ?thesis using tr[of i] rm[of i] by auto
  qed
  moreover have "length ts = length ss" "length rs = length ss" using t2 r2 by simp_all
  ultimately show ?thesis using rf unfolding run_facts_def
    by (intro exI[of _ bs]) simp
qed

lemma step_of_pos: "0 < step_of C"
  by (simp add: step_of_def)

lemma twc_windows:
  assumes H: "uninterrupted E" and ne: "ss \<noteq> []"
  shows "\<exists>r w' bs. translate_with_context E C ss w = Some (r, w')
     \<and> batches w' = batches w @ bs
     \<and> map b_start bs = range_from 0 (length ss) (step_of C)
     \<and> list_all (shaped C ss) bs
     \<and> list_all (\<lambda>b. length (b_outs b) = length (b_sents b)) bs
     \<and> (\<forall>st'. window_loop E C ss (step_of C) (range_from 0 (length ss) (step_of C))
               (Map.empty, Map.empty, []) w = Some (Inr st', w')
             \<longrightarrow> run_facts E C ss (range_from 0 (length ss) (step_of C))
                   (Map.empty, Map.empty, []) w bs st' w')"
proof -
  let ?starts = "range_from 0 (length ss) (step_of C)"
  let ?st0 = "(Map.empty, Map.empty, []) :: results"
  from window_loop_total[OF H, of C ss "step_of C" ?starts ?st0 w]
  obtain st' w' bs where wl: "window_loop E C ss (step_of C) ?starts ?st0 w = Some (Inr st', w')"
    and b: "batches w' = batches w @ bs" and l: "length bs = length ?starts"
    and o: "list_all (\<lambda>b. length (b_outs b) = length (b_sents b)) bs" by blast
  from window_loop_explained[OF wl] obtain bs2 where rf: "run_facts E C ss ?starts ?st0 w bs2 st' w'" ..
  from rf b have "bs2 = bs" unfolding run_facts_def by simp
  with rf have rf': "run_facts E C ss ?starts ?st0 w bs st' w'" by simp
  then have s: "map b_start bs = take (length bs) ?starts" and sh: "list_all (shaped C ss) bs"
    unfolding run_facts_def by simp_all
  from s l have s': "map b_start bs = ?starts" by simp
  obtain tr' rm' au' where st': "st' = (tr', rm', au')" by (cases st' rule: prod_cases3) blast
  have "\<exists>r. translate_with_context E C ss w = Some (r, w')"
    unfolding twc_unfold[OF ne] wl st'
    by (auto split: sum.splits)
  with b s' sh o rf' wl show ?thesis by auto
qed

lemma window_covers:
  assumes w: "1 \<le> c_window C" and o: "0 \<le> c_overlap C" "c_overlap C < c_window C"
    and s: "map b_start bs = range_from 0 (length ss) (step_of C)"
    and sh: "list_all (shaped C ss) bs"
    and full: "list_all (\<lambda>b. length (b_outs b) = length (b_sents b)) bs"
    and i: "i < length ss"
  shows "\<exists>b. first_cover bs i = Some b"
proof -
  from w o have st: "step_of C \<le> nat (c_window C)" "0 < step_of C"
    by (simp_all add: step_of_def)
  from range_from_cover[OF st(2), of 0 i "length ss"] i
  obtain s0 where s0: "s0 \<in> set (range_from 0 (length ss) (step_of C))" "s0 \<le> i"
    "i < s0 + step_of C" by auto
  from s0(1) s obtain b where b: "b \<in> set bs" "b_start b = s0"
    by (metis (no_types, lifting) image_iff list.set_map)
  from sh b(1) have shb: "shaped C ss b" by (simp add: list_all_iff)
  from full b(1) have fb: "length (b_outs b) = length (b_sents b)" by (simp add: list_all_iff)
  from shb have "b_sents b = window_sents ss s0 (c_window C)"
    and lr: "length (b_outs b) = length (b_raws b)" by (simp_all add: shaped_def b(2))
  with w have "length (b_sents b) = min (nat (c_window C)) (length ss - s0)"
    by (simp add: window_sents_length)
  with s0 st i have "i < s0 + length (b_sents b)" by auto
  with fb lr s0(2) b(2) have "covers b i" by (simp add: covers_def)
  with b(1) have "find (\<lambda>b. covers b i) bs \<noteq> None" by (auto simp: find_None_iff)
  then show ?thesis by (auto simp: first_cover_def)
qed

lemma first_cover_Some:
  "first_cover bs i = Some b \<Longrightarrow> b \<in> set bs \<and> covers b i"
  by (auto simp: first_cover_def find_Some_iff)

section \<open>What goes to the backend and what comes back\<close>

lemma per_request_length [simp]: "length (per_request f idx r ss) = length ss"
  by (induction ss arbitrary: idx r) simp_all

lemma per_request_append:
  "per_request f idx r (xs @ ys)
     = per_request f idx r xs @ per_request f (idx + length xs) (r + length xs) ys"
  by (induction xs arbitrary: idx r) simp_all

lemma per_request_enumerate:
  "per_request f idx r ss = map (\<lambda>(k, s). f (idx + k) (r + k) s) (enumerate 0 ss)"
proof (induction ss arbitrary: idx r)
  case Nil
  show ?case by simp
next
  case (Cons s ss)
  have "enumerate 0 (s # ss) = (0, s) # map (\<lambda>(k, s). (Suc k, s)) (enumerate 0 ss)"
    by (simp add: enumerate_Suc_eq[of 0] apfst_def map_prod_def case_prod_unfold)
  then show ?case by (simp add: Cons case_prod_unfold comp_def)
qed

lemma consume_stream_None:
  "consume_stream None idx st en parts raw w = (stream_raw parts raw, w)"
proof (induction parts arbitrary: raw w)
  case Nil
  show ?case by simp
next
  case (Cons part parts)
  obtain delta don where part: "part = (delta, don)" by (cases part)
  show ?case by (simp add: part Cons Let_def call_token_def)
qed

lemma consume_stream_Some:
  "consume_stream (Some f) idx st en parts raw w
     = (stream_raw parts raw,
        w\<lparr>tokens := tokens w @ map (Pair (f idx)) (stream_texts st en parts raw)\<rparr>)"
proof (induction parts arbitrary: raw w)
  case Nil
  show ?case by simp
next
  case (Cons part parts)
  obtain delta don where part: "part = (delta, don)" by (cases part)
  show ?case by (simp add: part Cons Let_def call_token_def)
qed

lemma ollama_request_exact:
  assumes "ollama_request E A idx s w = (Some raw, w')"
  shows "raw = ollama_raw E A (requests w) s"
    and "requests w' = Suc (requests w)" and "inputs w' = inputs w @ [s]"
    and "tokens (after_answer E A idx raw w') = tokens w @ ollama_tokens E A idx (requests w) s"
    and "requests (after_answer E A idx raw w') = Suc (requests w)"
    and "inputs (after_answer E A idx raw w') = inputs w @ [s]"
proof -
  let ?w1 = "w\<lparr>requests := Suc (requests w), inputs := inputs w @ [s],
                 prompts := prompts w @ [prompt_of A s]\<rparr>"
  have all: "raw = ollama_raw E A (requests w) s \<and> requests w' = Suc (requests w)
     \<and> inputs w' = inputs w @ [s]
     \<and> tokens (after_answer E A idx raw w') = tokens w @ ollama_tokens E A idx (requests w) s"
  proof (cases "o_stream A")
    case False
    with assms have "generate E (requests w) (prompt_of A s) = Some raw" "w' = ?w1"
      by (auto simp: ollama_request_def prompt_of_def Let_def split: option.splits)
    with False show ?thesis
      by (cases "o_token_callback A")
         (simp_all add: ollama_raw_def ollama_tokens_def ollama_texts_def after_answer_def
            call_token_def)
  next
    case True
    show ?thesis
    proof (cases "generate_stream E (requests w) (prompt_of A s)")
      case None
      with True assms show ?thesis by (simp add: ollama_request_def prompt_of_def Let_def)
    next
      case (Some parts)
      show ?thesis
      proof (cases "o_token_callback A")
        case None
        with True Some assms show ?thesis
          by (auto simp: ollama_request_def prompt_of_def Let_def consume_stream_None
                ollama_raw_def ollama_tokens_def ollama_texts_def after_answer_def)
      next
        case (Some f)
        with True \<open>generate_stream E (requests w) (prompt_of A s) = Some parts\<close> assms
        show ?thesis
          by (auto simp: ollama_request_def prompt_of_def Let_def consume_stream_Some
                ollama_raw_def ollama_tokens_def ollama_texts_def after_answer_def)
      qed
    qed
  qed
  then show "raw = ollama_raw E A (requests w) s"
    and "requests w' = Suc (requests w)" and "inputs w' = inputs w @ [s]"
    and "tokens (after_answer E A idx raw w') = tokens w @ ollama_tokens E A idx (requests w) s"
    by blast+
  from all show "requests (after_answer E A idx raw w') = Suc (requests w)"
    and "inputs (after_answer E A idx raw w') = inputs w @ [s]"
    by (cases "o_token_callback A"; simp add: after_answer_def call_token_def)+
qed


lemma ollama_loop_exact:
  "ollama_loop E A idx sents (outs, nt, raws) w = Some (Inr (o1, n1, r1), w') \<Longrightarrow>
   \<exists>n. n \<le> length sents
     \<and> r1 = raws @ per_request (\<lambda>i. ollama_raw E A) idx (requests w) (take n sents)
     \<and> o1 = outs @ map (\<lambda>raw. fst (parse_translation_and_glossary (ucd E) raw (o_glossary A)
                                   (o_start_mark A) (o_end_mark A)))
                     (per_request (\<lambda>i. ollama_raw E A) idx (requests w) (take n sents))
     \<and> n1 = fold (\<lambda>raw d. dict_update d
                      (snd (parse_translation_and_glossary (ucd E) raw (o_glossary A)
                              (o_start_mark A) (o_end_mark A))))
               (per_request (\<lambda>i. ollama_raw E A) idx (requests w) (take n sents)) nt
     \<and> tokens w' = tokens w
          @ concat (per_request (ollama_tokens E A) idx (requests w) (take n sents))
     \<and> requests w' = requests w + n \<and> inputs w' = inputs w @ take n sents"
proof (induction sents arbitrary: idx outs nt raws w)
  case Nil
  then show ?case by simp
next
  case (Cons s rest)
  from Cons.prems show ?case
  proof (cases rule: ollama_loop_Cons)
    case cancel
    then show ?thesis using quiet_fields[OF cancel_quiet[of w E]]
      by (intro exI[of _ 0]) simp
  next
    case (fail w1)
    then show ?thesis by simp
  next
    case (go w1 raw w2)
    let ?w3 = "after_answer E A idx raw w2"
    have q: "requests w1 = requests w" "inputs w1 = inputs w" "tokens w1 = tokens w"
      using quiet_fields[OF wait_quiet[OF go(2)]] quiet_fields[OF cancel_quiet[of w E]]
      by simp_all
    note rq = ollama_request_exact[OF go(3)]
    from Cons.IH[OF go(4)] obtain n where n: "n \<le> length rest"
      and 1: "r1 = (raws @ [raw])
                @ per_request (\<lambda>i. ollama_raw E A) (Suc idx) (requests ?w3) (take n rest)"
      and 2: "o1 = (outs @ [fst (parse_translation_and_glossary (ucd E) raw (o_glossary A)
                        (o_start_mark A) (o_end_mark A))])
                @ map (\<lambda>raw. fst (parse_translation_and_glossary (ucd E) raw (o_glossary A)
                                   (o_start_mark A) (o_end_mark A)))
                     (per_request (\<lambda>i. ollama_raw E A) (Suc idx) (requests ?w3) (take n rest))"
      and 3: "n1 = fold (\<lambda>raw d. dict_update d
                      (snd (parse_translation_and_glossary (ucd E) raw (o_glossary A)
                              (o_start_mark A) (o_end_mark A))))
               (per_request (\<lambda>i. ollama_raw E A) (Suc idx) (requests ?w3) (take n rest))
               (dict_update nt (snd (parse_translation_and_glossary (ucd E) raw (o_glossary A)
                        (o_start_mark A) (o_end_mark A))))"
      and 4: "tokens w' = tokens ?w3
          @ concat (per_request (ollama_tokens E A) (Suc idx) (requests ?w3) (take n rest))"
      and 5: "requests w' = requests ?w3 + n" "inputs w' = inputs ?w3 @ take n rest"
      by blast
    have r3: "requests ?w3 = Suc (requests w)" using rq(5) q by simp
    have raw: "raw = ollama_raw E A (requests w) s" using rq(1) q by simp
    have t3: "tokens ?w3 = tokens w @ ollama_tokens E A idx (requests w) s"
      using rq(4) q by simp
    have i3: "inputs ?w3 = inputs w @ [s]" using rq(6) q by simp
    show ?thesis
      by (rule exI[of _ "Suc n"]) (use n 1 2 3 4 5 r3 raw t3 i3 in simp)
  qed
qed

lemma pipeline_loop_exact:
  "pipeline_loop E sents outs w = Some (o1, w') \<Longrightarrow>
   \<exists>n. n \<le> length sents
     \<and> o1 = outs @ per_request (\<lambda>i. pipeline_translate E) idx (requests w) (take n sents)
     \<and> tokens w' = tokens w
     \<and> requests w' = requests w + n \<and> inputs w' = inputs w @ take n sents"
proof (induction sents arbitrary: idx outs w)
  case Nil
  then show ?case by simp
next
  case (Cons s rest)
  from Cons.prems show ?case
  proof (cases rule: pipeline_loop_Cons)
    case cancel
    then show ?thesis using quiet_fields[OF cancel_quiet[of w E]]
      by (intro exI[of _ 0]) simp
  next
    case (go w1)
    have q: "requests w1 = requests w" "inputs w1 = inputs w" "tokens w1 = tokens w"
      using quiet_fields[OF wait_quiet[OF go(2)]] quiet_fields[OF cancel_quiet[of w E]]
      by simp_all
    from Cons.IH[OF go(3), of "Suc idx"] obtain n where n: "n \<le> length rest"
      and 1: "o1 = (outs @ [pipeline_translate E (requests w1) s])
                @ per_request (\<lambda>i. pipeline_translate E) (Suc idx) (Suc (requests w1))
                    (take n rest)"
      and 2: "tokens w' = tokens w1"
      and 3: "requests w' = Suc (requests w1) + n" "inputs w' = (inputs w1 @ [s]) @ take n rest"
      by auto
    show ?thesis
      by (rule exI[of _ "Suc n"]) (use n 1 2 3 q in simp)
  qed
qed

lemma backend_of_ollama:
  assumes "c_use_ollama C"
  shows "ollama_raw E (args_of (c_target_lang C) (window_callback C start) (c_glossary C)
                         START_MARK END_MARK) r s = backend_raw E C r s"
    and "ollama_tokens E (args_of (c_target_lang C) (window_callback C start) (c_glossary C)
                         START_MARK END_MARK) k r s
           = map (Pair (start + k)) (backend_texts E C r s)"
  using assms
  by (auto simp: ollama_raw_def ollama_tokens_def ollama_texts_def backend_raw_def
        backend_texts_def args_of_def window_callback_def prompt_of_def
        split: option.splits)

lemma fold_no_updates: "fold (\<lambda>raw d. dict_update d []) raws d0 = d0"
  by (induction raws) (simp_all add: dict_update_def)

lemma window_answered:
  assumes ts: "translate_sentences E (c_target_lang C) (c_use_ollama C) (window_callback C start)
         (c_glossary C) START_MARK END_MARK (window_sents ss start (c_window C)) w1
         = Some (Inr res, w2)"
  shows "answered E C (batch_of C ss start res w1 w2)"
    and "requests w2 = requests w1 + length (fst res)"
    and "inputs w2 = inputs w1 @ take (length (fst res)) (window_sents ss start (c_window C))"
proof -
  obtain o1 ups r1 where res: "res = (o1, ups, r1)" by (cases res)
  let ?sents = "window_sents ss start (c_window C)"
  let ?A = "args_of (c_target_lang C) (window_callback C start) (c_glossary C)
              START_MARK END_MARK"
  let ?b = "batch_of C ss start res w1 w2"
  have all: "answered E C ?b \<and> requests w2 = requests w1 + length o1
       \<and> inputs w2 = inputs w1 @ take (length o1) ?sents"
  proof (cases "c_use_ollama C")
    case True
    with ts res have "ollama_loop E ?A 0 ?sents ([], [], []) w1 = Some (Inr (o1, ups, r1), w2)"
      by (simp add: translate_sentences_def translate_with_ollama_def args_of_def)
    from ollama_loop_exact[OF this] obtain n where n: "n \<le> length ?sents"
      and 1: "r1 = per_request (\<lambda>i. ollama_raw E ?A) 0 (requests w1) (take n ?sents)"
      and 2: "o1 = map (\<lambda>raw. fst (parse_translation_and_glossary (ucd E) raw (o_glossary ?A)
                                   (o_start_mark ?A) (o_end_mark ?A))) r1"
      and 3: "ups = fold (\<lambda>raw d. dict_update d
                      (snd (parse_translation_and_glossary (ucd E) raw (o_glossary ?A)
                              (o_start_mark ?A) (o_end_mark ?A)))) r1 []"
      and 4: "tokens w2 = tokens w1
          @ concat (per_request (ollama_tokens E ?A) 0 (requests w1) (take n ?sents))"
      and 5: "requests w2 = requests w1 + n" "inputs w2 = inputs w1 @ take n ?sents"
      by auto
    from 1 2 n have len: "length o1 = n" by simp
    have a1: "r1 = map (\<lambda>(k, s). backend_raw E C (requests w1 + k) s)
                     (enumerate 0 (take (length o1) ?sents))"
      unfolding 1 len by (simp add: per_request_enumerate backend_of_ollama[OF True])
    have a2: "o1 = map (\<lambda>(k, s). backend_out E C (requests w1 + k) s)
                     (enumerate 0 (take (length o1) ?sents))"
      using 2 a1 True
      by (simp add: backend_out_def raw_output_def args_of_def case_prod_unfold comp_def)
    have a3: "ups = fold (\<lambda>raw d. dict_update d (raw_updates E C raw)) r1 []"
      using 3 True by (simp add: raw_updates_def args_of_def)
    have a4: "drop (length (tokens w1)) (tokens w2)
                = concat (map (\<lambda>(k, s). map (Pair (start + k))
                                 (backend_texts E C (requests w1 + k) s))
                    (enumerate 0 (take (length o1) ?sents)))"
      unfolding 4 len by (simp add: per_request_enumerate backend_of_ollama[OF True])
    from a1 a2 a3 a4 5 len show ?thesis
      unfolding answered_def batch_of_def res by simp
  next
    case False
    with ts res have p: "pipeline_loop E ?sents [] w1 = Some (o1, w2)" and r: "r1 = o1"
      and u: "ups = []"
      by (auto simp: translate_sentences_def split: option.splits)
    from pipeline_loop_exact[OF p, of 0] obtain n where n: "n \<le> length ?sents"
      and 1: "o1 = per_request (\<lambda>i. pipeline_translate E) 0 (requests w1) (take n ?sents)"
      and 4: "tokens w2 = tokens w1"
      and 5: "requests w2 = requests w1 + n" "inputs w2 = inputs w1 @ take n ?sents"
      by auto
    from 1 n have len: "length o1 = n" by simp
    have a1: "o1 = map (\<lambda>(k, s). backend_raw E C (requests w1 + k) s)
                     (enumerate 0 (take (length o1) ?sents))"
      unfolding len using 1 False by (simp add: per_request_enumerate backend_raw_def)
    have a2: "o1 = map (\<lambda>(k, s). backend_out E C (requests w1 + k) s)
                     (enumerate 0 (take (length o1) ?sents))"
      unfolding len using 1 False
      by (simp add: per_request_enumerate backend_raw_def backend_out_def raw_output_def)
    have a3: "[] = fold (\<lambda>raw d. dict_update d (raw_updates E C raw)) o1 []"
      using False by (simp add: raw_updates_def fold_no_updates)
    have a4: "[] = concat (map (\<lambda>(k, s). map (Pair (start + k))
                                 (backend_texts E C (requests w1 + k) s))
                    (enumerate 0 (take (length o1) ?sents)))"
      using False by (simp add: backend_texts_def case_prod_unfold)
    from a1 a2 a3 a4 4 5 len r u show ?thesis
      unfolding answered_def batch_of_def res by simp
  qed
  then show "answered E C ?b" by blast
  from all res show "requests w2 = requests w1 + length (fst res)" by simp
  from all res show "inputs w2 = inputs w1 @ take (length (fst res)) ?sents" by simp
qed

lemma window_loop_exact:
  "window_loop E C ss step starts st w = Some (Inr st', w') \<Longrightarrow>
   \<exists>bs. batches w' = batches w @ bs \<and> requests_explained E C w bs w'"
proof (induction starts arbitrary: st w)
  case Nil
  then have "w' = w" by simp
  then show ?case by (intro exI[of _ "[]"]) (simp add: requests_explained_def)
next
  case (Cons start starts)
  from Cons.prems show ?case
  proof (cases rule: window_loop_Cons)
    case cancel
    then show ?thesis using quiet_fields[OF cancel_quiet[of w E]]
      by (intro exI[of _ "[]"]) (simp add: requests_explained_def)
  next
    case (fail w1 e)
    then show ?thesis by simp
  next
    case (go w1 res w2 st1 w3)
    let ?b = "batch_of C ss start res w1 w2"
    from Cons.IH[OF go(5)] obtain bs where bs: "batches w' = batches w3 @ bs"
      and re: "requests_explained E C w3 bs w'" by blast
    have q: "requests w1 = requests w" "inputs w1 = inputs w" "batches w1 = batches w"
      using quiet_fields[OF quiet_trans[OF cancel_quiet wait_quiet[OF go(2)]]] by simp_all
    obtain tr rm au where st: "st = (tr, rm, au)" by (cases st rule: prod_cases3) blast
    note f = finish_windowD[OF go(4)[unfolded st]]
    note fb = first_batch_shaped[OF go(3)]
    note wa = window_answered[OF go(3)]
    have bo: "b_outs ?b = fst res" "b_sents ?b = window_sents ss start (c_window C)"
      "b_requests ?b = requests w" by (simp_all add: batch_of_def q)
    have c1: "batches w' = batches w @ ?b # bs" using bs f(2) fb(3) q by simp
    have r3: "requests w3 = requests w + length (b_outs ?b)" using f(5) wa(2) q bo by simp
    have i3: "inputs w3 = inputs w @ take (length (b_outs ?b)) (b_sents ?b)"
      using f(6) wa(3) q bo by simp
    from re have "requests_explained E C w (?b # bs) w'"
      unfolding requests_explained_def using wa(1) r3 i3 bo(3) by simp
    with c1 show ?thesis by blast
  qed
qed

lemma twc_requests:
  assumes "translate_with_context E C ss w = Some (Inr (ts, ups, rs), w')"
  shows "\<exists>bs. batches w' = batches w @ bs \<and> requests_explained E C w bs w'"
proof (cases "ss = []")
  case True
  with assms show ?thesis
    by (intro exI[of _ "[]"]) (auto simp: translate_with_context_def requests_explained_def)
next
  case False
  from twc_Inr[OF False assms] obtain tr' rm' where
    "window_loop E C ss (step_of C) (range_from 0 (length ss) (step_of C))
       (Map.empty, Map.empty, []) w = Some (Inr (tr', rm', ups), w')" by blast
  from window_loop_exact[OF this] show ?thesis .
qed

lemma full_windows:
  "list_all (\<lambda>b. length (b_outs b) = length (b_sents b)) bs \<Longrightarrow>
   map (\<lambda>b. take (length (b_outs b)) (b_sents b)) bs = map b_sents bs"
  by (induction bs) simp_all

lemma answered_nth:
  assumes "answered E C b" and "k < length (b_outs b)" and "length (b_outs b) \<le> length (b_sents b)"
  shows "b_raws b ! k = backend_raw E C (b_requests b + k) (b_sents b ! k)"
    and "b_outs b ! k = backend_out E C (b_requests b + k) (b_sents b ! k)"
proof -
  let ?done = "take (length (b_outs b)) (b_sents b)"
  from assms(2,3) have k: "k < length ?done" by simp
  from assms(1) have r: "b_raws b = map (\<lambda>(k, s). backend_raw E C (b_requests b + k) s)
                   (enumerate 0 ?done)"
    and o: "b_outs b = map (\<lambda>(k, s). backend_out E C (b_requests b + k) s)
                   (enumerate 0 ?done)"
    unfolding answered_def by blast+
  from k have e: "enumerate 0 ?done ! k = (k, b_sents b ! k)"
    by (simp add: nth_enumerate_eq)
  have "b_raws b ! k = (map (\<lambda>(k, s). backend_raw E C (b_requests b + k) s)
                   (enumerate 0 ?done)) ! k" using r by simp
  also have "\<dots> = backend_raw E C (b_requests b + k) (b_sents b ! k)"
    using k e by (simp del: take_all_iff)
  finally show "b_raws b ! k = backend_raw E C (b_requests b + k) (b_sents b ! k)" .
  have "b_outs b ! k = (map (\<lambda>(k, s). backend_out E C (b_requests b + k) s)
                   (enumerate 0 ?done)) ! k" using o by simp
  also have "\<dots> = backend_out E C (b_requests b + k) (b_sents b ! k)"
    using k e by (simp del: take_all_iff)
  finally show "b_outs b ! k = backend_out E C (b_requests b + k) (b_sents b ! k)" .
qed

lemma twc_total:
  assumes H: "uninterrupted E" and w: "1 \<le> c_window C" and o: "0 \<le> c_overlap C"
    "c_overlap C < c_window C"
  shows "\<exists>ts ups rs w'. translate_with_context E C ss w = Some (Inr (ts, ups, rs), w')"
proof (cases "ss = []")
  case True
  then show ?thesis by (simp add: translate_with_context_def)
next
  case False
  let ?starts = "range_from 0 (length ss) (step_of C)"
  let ?st0 = "(Map.empty, Map.empty, []) :: results"
  from twc_windows[OF H False, of C w] obtain r w' bs where
    run: "translate_with_context E C ss w = Some (r, w')"
    and s: "map b_start bs = ?starts" and sh: "list_all (shaped C ss) bs"
    and full: "list_all (\<lambda>b. length (b_outs b) = length (b_sents b)) bs"
    and rf: "\<And>st'. window_loop E C ss (step_of C) ?starts ?st0 w = Some (Inr st', w')
               \<Longrightarrow> run_facts E C ss ?starts ?st0 w bs st' w'"
    by blast
  note cov = window_covers[OF w o s sh full]
  from window_loop_total[OF H, of C ss "step_of C" ?starts ?st0 w]
  obtain st' w1 where wl: "window_loop E C ss (step_of C) ?starts ?st0 w = Some (Inr st', w1)"
    by blast
  with run have w1: "w1 = w'"
    unfolding twc_unfold[OF False] by (auto split: sum.splits prod.splits)
  obtain tr' rm' au' where st': "st' = (tr', rm', au')" by (cases st' rule: prod_cases3) blast
  from rf[OF wl[unfolded w1]] have
    tr: "\<And>i. tr' i = kept_translation (ucd E) (c_glossary C) bs i"
    and rm: "\<And>i. rm' i = kept_raw bs i"
    unfolding run_facts_def st' by simp_all
  have some: "tr' i \<noteq> None \<and> rm' i \<noteq> None" if "i < length ss" for i
    using cov[OF that] tr[of i] rm[of i] by (auto simp: kept_translation_def kept_raw_def)
  then have "list_all (\<lambda>i. tr' i \<noteq> None) [0..<length ss]"
    "list_all (\<lambda>i. rm' i \<noteq> None) [0..<length ss]" by (simp_all add: list_all_iff)
  then have "lookup_all tr' [0..<length ss] = Inr (map (\<lambda>i. the (tr' i)) [0..<length ss])"
    "lookup_all rm' [0..<length ss] = Inr (map (\<lambda>i. the (rm' i)) [0..<length ss])"
    by (simp_all add: lookup_all_Inr)
  with wl w1 st' show ?thesis
    unfolding twc_unfold[OF False] by simp
qed

lemma twc_windows_sent:
  assumes H: "uninterrupted E" and ne: "ss \<noteq> []"
  shows "\<exists>r w' bs. translate_with_context E C ss w = Some (r, w')
     \<and> batches w' = batches w @ bs
     \<and> map b_start bs = range_from 0 (length ss) (step_of C)
     \<and> list_all (shaped C ss) bs
     \<and> list_all (\<lambda>b. length (b_outs b) = length (b_sents b)) bs
     \<and> requests_explained E C w bs w'
     \<and> inputs w' = inputs w @ concat (map b_sents bs)
     \<and> requests w' = requests w + length (concat (map b_sents bs))"
proof -
  let ?starts = "range_from 0 (length ss) (step_of C)"
  let ?st0 = "(Map.empty, Map.empty, []) :: results"
  from twc_windows[OF H ne, of C w] obtain r w' bs where
    run: "translate_with_context E C ss w = Some (r, w')"
    and b: "batches w' = batches w @ bs"
    and s: "map b_start bs = ?starts" and sh: "list_all (shaped C ss) bs"
    and full: "list_all (\<lambda>b. length (b_outs b) = length (b_sents b)) bs"
    by blast
  from window_loop_total[OF H, of C ss "step_of C" ?starts ?st0 w]
  obtain st' w1 where wl: "window_loop E C ss (step_of C) ?starts ?st0 w = Some (Inr st', w1)"
    by blast
  with run have w1: "w1 = w'"
    unfolding twc_unfold[OF ne] by (auto split: sum.splits prod.splits)
  from window_loop_exact[OF wl[unfolded w1]] obtain bs2 where
    "batches w' = batches w @ bs2" and "requests_explained E C w bs2 w'" by blast
  with b have re: "requests_explained E C w bs w'" by simp
  from full have lens: "length (concat (map b_outs bs)) = length (concat (map b_sents bs))"
    by (induction bs) simp_all
  from re full_windows[OF full] lens
  have "inputs w' = inputs w @ concat (map b_sents bs)"
    and "requests w' = requests w + length (concat (map b_sents bs))"
    unfolding requests_explained_def by simp_all
  with run b s sh full re show ?thesis by blast
qed

lemma window_sents_map:
  assumes "0 \<le> window"
  shows "window_sents ss start window
           = map (\<lambda>i. tag i (ss ! i)) [start..<min (length ss) (start + nat window)]"
proof -
  define M where "M = min (length ss) (start + nat window)"
  have len: "length (window_sents ss start window) = M - start"
    using assms by (auto simp: window_sents_length min_def M_def)
  have "window_sents ss start window = map (\<lambda>i. tag i (ss ! i)) [start..<M]"
  proof (rule nth_equalityI)
    show "length (window_sents ss start window) = length (map (\<lambda>i. tag i (ss ! i)) [start..<M])"
      using len by simp
    fix k assume k: "k < length (window_sents ss start window)"
    with len have lt: "start + k < M" by linarith
    then have u: "[start..<M] ! k = start + k" by (rule nth_upt)
    from lt have "k < length [start..<M]" by simp
    then have "map (\<lambda>i. tag i (ss ! i)) [start..<M] ! k = tag (start + k) (ss ! (start + k))"
      by (simp only: nth_map u)
    with window_sents_nth[OF assms k]
    show "window_sents ss start window ! k = map (\<lambda>i. tag i (ss ! i)) [start..<M] ! k"
      by simp
  qed
  then show ?thesis by (simp only: M_def)
qed

lemma pause_released:
  assumes "\<And>t. n \<le> t \<Longrightarrow> \<not> p t"
  shows "\<exists>w'. pause_loop E p w = Some w'"
proof (induction "n - clock w" arbitrary: w rule: less_induct)
  case less
  show ?case
  proof (cases "p (clock w)")
    case False
    then show ?thesis by (subst pause_loop.simps) simp
  next
    case True
    with assms[of "clock w"] have lt: "clock w < n" by (cases "clock w < n") simp_all
    let ?w1 = "snd (cancel_is_set E (w\<lparr>clock := Suc (clock w)\<rparr>))"
    have "clock w < clock ?w1" by (simp add: cancel_is_set_def split: option.splits)
    with lt have "n - clock ?w1 < n - clock w" by simp
    from less[OF this] obtain w' where "pause_loop E p ?w1 = Some w'" by blast
    with True show ?thesis by (subst pause_loop.simps) simp
  qed
qed

section \<open>The example runs, evaluated\<close>

lemmas run_defs = translate_with_context_def fresh_def range_from.simps
  cancel_is_set_def wait_while_paused_def translate_sentences_def translate_with_ollama_def
  window_sents_def py_slice_def tag_def u_def finish_window_def setdefault_def
  strip_tag_def strip_def isspace_def isdecimal_def tabled_def ascii_digit_def
  apply_glossary_def Let_def

lemmas parse_defs = ollama_request_def parse_translation_and_glossary_def prune_marked_def
  START_MARK_def END_MARK_def GLOSSARY_START_def GLOSSARY_END_def match_here_def
  splitlines_def linebreak_def lower_def isupper_def isascii_def ascii_upper_def
  dict_update_def call_token_def glossary_str_def

lemma uninterrupted_plain: "uninterrupted plain_env"
  by (simp add: uninterrupted_def never_set_def plain_env_def wait_while_paused_def)

lemma overlap_run:
  "translate_with_context plain_env overlap_args [u ''a'', u ''b''] fresh
     = Some (Inr ([u ''a#0'', u ''b#1''], [], [u ''[0] a#0'', u ''[1] b#1'']), overlap_world)"
proof -
  have ne: "[u ''a'', u ''b''] \<noteq> []" by simp
  have st: "step_of overlap_args = 1" by (simp add: step_of_def overlap_args_def)
  have rg: "range_from 0 (length [u ''a'', u ''b'']) 1 = [0, 1]" by (simp add: range_from.simps)
  show ?thesis
    unfolding twc_unfold[OF ne] st rg
    apply (subst window_loop.simps)
    apply (simp add: run_defs plain_env_def ascii_only_def overlap_args_def del: window_loop.simps)
    apply (subst window_loop.simps)
    apply (simp add: run_defs plain_env_def ascii_only_def overlap_args_def del: window_loop.simps)
    apply (simp add: run_defs overlap_world_def)
    done
qed

lemma two_window_run:
  "translate_with_context plain_env two_window_args [u ''a'', u ''b''] fresh
     = Some (Inr ([u ''x'', u ''x''], [(u ''Foo'', u ''Baz'')], [foo_answer 0, foo_answer 1]),
             two_window_world)"
proof -
  have ne: "[u ''a'', u ''b''] \<noteq> []" by simp
  have st: "step_of two_window_args = 1"
    by (simp add: step_of_def two_window_args_def overlap_args_def)
  have rg: "range_from 0 (length [u ''a'', u ''b'']) 1 = [0, 1]" by (simp add: range_from.simps)
  show ?thesis
    unfolding twc_unfold[OF ne] st rg
    apply (subst window_loop.simps)
    apply (simp add: run_defs parse_defs plain_env_def ascii_only_def two_window_args_def
             overlap_args_def foo_answer_def del: window_loop.simps)
    apply (subst window_loop.simps)
    apply (simp add: run_defs parse_defs plain_env_def ascii_only_def two_window_args_def
             overlap_args_def foo_answer_def del: window_loop.simps)
    apply (simp add: run_defs parse_defs two_window_world_def foo_answer_def)
    done
qed

lemma gap_run:
  "returned (translate_with_context plain_env gap_args [u ''a'', u ''b'', u ''c''] fresh)
     = Some (Inl (KeyError 2))"
proof -
  have ne: "[u ''a'', u ''b'', u ''c''] \<noteq> []" by simp
  have st: "step_of gap_args = 3" by (simp add: step_of_def gap_args_def overlap_args_def)
  have rg: "range_from 0 (length [u ''a'', u ''b'', u ''c'']) 3 = [0]"
    by (simp add: range_from.simps)
  show ?thesis
    unfolding twc_unfold[OF ne] st rg
    by (simp add: returned_def run_defs plain_env_def ascii_only_def gap_args_def overlap_args_def)
qed

lemma uninterrupted_resumed: "uninterrupted resumed_env"
proof -
  have "\<exists>w'. pause_loop resumed_env (\<lambda>t. t < 3) w = Some w'" for w
    by (rule pause_released[where n = 3]) simp
  then show ?thesis
    by (simp add: uninterrupted_def never_set_def resumed_env_def plain_env_def
          wait_while_paused_def)
qed

lemma batch_call:
  "translate_with_ollama plain_env batch_call_args [u ''[0] a'', u ''[1] b''] fresh
     = Some (Inr ([u ''x'', u ''x''], [(u ''Foo'', u ''Baz'')], [foo_answer 0, foo_answer 1]),
             batch_world\<lparr>batches := []\<rparr>)"
  by (simp add: run_defs parse_defs plain_env_def ascii_only_def batch_call_args_def
        foo_answer_def batch_world_def)

lemma batch_run:
  "translate_with_context plain_env batch_args [u ''a'', u ''b''] fresh
     = Some (Inr ([u ''x'', u ''x''], [(u ''Foo'', u ''Baz'')], [foo_answer 0, foo_answer 1]),
             batch_world)"
proof -
  have ne: "[u ''a'', u ''b''] \<noteq> []" by simp
  have st: "step_of batch_args = 2"
    by (simp add: step_of_def batch_args_def overlap_args_def)
  have rg: "range_from 0 (length [u ''a'', u ''b'']) 2 = [0]" by (simp add: range_from.simps)
  show ?thesis
    unfolding twc_unfold[OF ne] st rg
    apply (subst window_loop.simps)
    apply (simp add: run_defs parse_defs plain_env_def ascii_only_def batch_args_def
             overlap_args_def foo_answer_def del: window_loop.simps)
    apply (simp add: run_defs parse_defs batch_world_def foo_answer_def)
    done
qed


lemma token_run:
  "translate_with_context resumed_env token_args [u ''a'', u ''b''] fresh
     = Some (Inr ([u ''x'', u ''x''], [(u ''Foo'', u ''Baz'')], [foo_answer 0, foo_answer 1]),
             token_world)"
proof -
  have ne: "[u ''a'', u ''b''] \<noteq> []" by simp
  have st: "step_of token_args = 1"
    by (simp add: step_of_def token_args_def overlap_args_def)
  have rg: "range_from 0 (length [u ''a'', u ''b'']) 1 = [0, 1]" by (simp add: range_from.simps)
  show ?thesis
    unfolding twc_unfold[OF ne] st rg
    apply (subst window_loop.simps)
    apply (simp add: run_defs parse_defs pause_loop.simps resumed_env_def plain_env_def
             ascii_only_def token_args_def
             overlap_args_def foo_answer_def del: window_loop.simps)
    apply (subst window_loop.simps)
    apply (simp add: run_defs parse_defs pause_loop.simps resumed_env_def plain_env_def
             ascii_only_def token_args_def
             overlap_args_def foo_answer_def del: window_loop.simps)
    apply (simp add: run_defs parse_defs token_world_def foo_answer_def)
    done
qed

lemma dict_update_lookup:
  "map_of (dict_update d other) k =
     (case map_of (rev other) k of Some v \<Rightarrow> Some v | None \<Rightarrow> map_of d k)"
proof (induction other arbitrary: d)
  case Nil
  show ?case by (simp add: dict_update_def)
next
  case (Cons p other)
  obtain a b where p: "p = (a, b)" by (cases p)
  have "dict_update d (p # other) = dict_update (AList.update a b d) other"
    by (simp add: dict_update_def p)
  with Cons[of "AList.update a b d"] show ?case
    by (auto simp: p update_conv' map_add_def split: option.splits)
qed

section \<open>Cancellation\<close>

text \<open>
  C1 (the code departs from the claim): when the cancellation flag is read as set at the
  first poll of a run over a non-empty sentence list, the window loop is left before any
  window is translated, and the assembly of the result then looks up index 0 in the
  empty result map: \<^verbatim>\<open>translate_with_context\<close> raises \<^verbatim>\<open>KeyError(0)\<close> instead of returning
  a partial result.
\<close>

theorem cancel_before_first_window_raises:
  assumes "cancel_event E = Some f" and "f (clock w)" and "ss \<noteq> []"
  shows "translate_with_context E C ss w
           = Some (Inl (KeyError 0), w\<lparr>clock := Suc (clock w)\<rparr>)"
proof -
  from assms(3) have len: "0 < length ss" by simp
  then have rg: "range_from 0 (length ss) (step_of C)
                   = 0 # range_from (step_of C) (length ss) (step_of C)"
    using step_of_pos[of C] by (subst range_from.simps) simp
  from assms(1,2) have c: "fst (cancel_is_set E w)" "snd (cancel_is_set E w) = w\<lparr>clock := Suc (clock w)\<rparr>"
    by (simp_all add: cancel_is_set_def)
  from len have up: "[0..<length ss] = 0 # [1..<length ss]" by (simp add: upt_conv_Cons)
  show ?thesis
    unfolding twc_unfold[OF assms(3)] rg using c by (simp add: up)
qed

theorem cancel_before_first_window_raises_witness:
  "cancel_event cancelled_env = Some (\<lambda>t. True) \<and> [u ''a''] \<noteq> []
   \<and> translate_with_context cancelled_env overlap_args [u ''a''] fresh
       = Some (Inl (KeyError 0), fresh\<lparr>clock := Suc (clock fresh)\<rparr>)"
proof -
  have e: "cancel_event cancelled_env = Some (\<lambda>t. True)"
    by (simp add: cancelled_env_def)
  have n: "[u ''a''] \<noteq> []" by simp
  have "translate_with_context cancelled_env overlap_args [u ''a''] fresh
       = Some (Inl (KeyError 0), fresh\<lparr>clock := Suc (clock fresh)\<rparr>)"
    by (rule cancel_before_first_window_raises[OF e _ n]) simp
  with e n show ?thesis by simp
qed

section \<open>The windowed translator: alignment\<close>

text \<open>
  C2, amended: for every sentence list, every window size of at least 1 and every
  overlap from 0 to below the window size, in a run that is not cancelled, in which
  every pause ends and every request is answered, \<^verbatim>\<open>translate_with_context\<close> returns
  translations and raw responses as long as the input. The sentences that went to the
  backend are those of the logged windows, one request each, numbered window after
  window. For every index \<open>i\<close>, the first window covering \<open>i\<close> was handed the tagged
  sentence \<open>i\<close> at the local index \<open>i - start\<close>; its raw response and its output at that
  index are the answer of the backend to the request for that tagged sentence; entry \<open>i\<close>
  of the raw responses is that raw response, and entry \<open>i\<close> of the translations is that
  output with the tag stripped and the glossary applied. The token callback of the
  caller received, during a window, for the sentence at the local index \<open>k\<close> the texts
  of its request under the index \<open>start + k\<close>, in the order of the sentences.
\<close>

theorem aligned_output:
  assumes "uninterrupted E" and "1 \<le> c_window C" and "0 \<le> c_overlap C"
    and "c_overlap C < c_window C"
  shows "\<exists>ts ups rs w' bs. translate_with_context E C ss w = Some (Inr (ts, ups, rs), w')
     \<and> length ts = length ss \<and> length rs = length ss
     \<and> batches w' = batches w @ bs
     \<and> inputs w' = inputs w @ concat (map b_sents bs)
     \<and> numbered (requests w) bs
     \<and> (\<forall>i. i < length ss \<longrightarrow>
           (\<exists>b. first_cover bs i = Some b
              \<and> length (b_outs b) = length (b_sents b)
              \<and> b_sents b ! (i - b_start b) = tag i (ss ! i)
              \<and> b_raws b ! (i - b_start b)
                   = backend_raw E C (b_requests b + (i - b_start b)) (tag i (ss ! i))
              \<and> b_outs b ! (i - b_start b)
                   = backend_out E C (b_requests b + (i - b_start b)) (tag i (ss ! i))
              \<and> ts ! i = cleaned_output (ucd E) (c_glossary C) (b_outs b ! (i - b_start b))
              \<and> rs ! i = b_raws b ! (i - b_start b)))
     \<and> tokens w' = tokens w @ concat (map b_tokens bs)
     \<and> list_all (\<lambda>b. b_tokens b =
                    concat (map (\<lambda>(k, s). map (Pair (b_start b + k))
                                           (backend_texts E C (b_requests b + k) s))
                              (enumerate 0 (b_sents b)))) bs
     \<and> list_all (\<lambda>b. list_all (\<lambda>(j, t). b_start b \<le> j
                                    \<and> j < b_start b + length (b_sents b)) (b_tokens b)) bs"
proof -
  from twc_total[OF assms, of ss w] obtain ts ups rs w' where
    res: "translate_with_context E C ss w = Some (Inr (ts, ups, rs), w')" by blast
  from twc_explained[OF res] obtain bs where b: "batches w' = batches w @ bs"
    and len: "length ts = length ss" "length rs = length ss"
    and kept: "\<And>i. i < length ss \<Longrightarrow>
           Some (ts ! i) = kept_translation (ucd E) (c_glossary C) bs i
           \<and> Some (rs ! i) = kept_raw bs i"
    and tk: "tokens w' = tokens w @ concat (map b_tokens bs)"
    and sh: "list_all (shaped C ss) bs"
    by blast
  from twc_requests[OF res] b have re: "requests_explained E C w bs w'" by auto
  then have an: "list_all (answered E C) bs" and nu: "numbered (requests w) bs"
    and inp: "inputs w' = inputs w
           @ concat (map (\<lambda>b. take (length (b_outs b)) (b_sents b)) bs)"
    unfolding requests_explained_def by simp_all
  have full: "list_all (\<lambda>b. length (b_outs b) = length (b_sents b)) bs"
  proof (cases "ss = []")
    case True
    with res b show ?thesis by (simp add: translate_with_context_def)
  next
    case False
    from twc_windows_sent[OF assms(1) False, of C w] res b show ?thesis by auto
  qed
  from inp full_windows[OF full]
  have inp': "inputs w' = inputs w @ concat (map b_sents bs)" by simp
  have el: "\<exists>b. first_cover bs i = Some b
              \<and> length (b_outs b) = length (b_sents b)
              \<and> b_sents b ! (i - b_start b) = tag i (ss ! i)
              \<and> b_raws b ! (i - b_start b)
                   = backend_raw E C (b_requests b + (i - b_start b)) (tag i (ss ! i))
              \<and> b_outs b ! (i - b_start b)
                   = backend_out E C (b_requests b + (i - b_start b)) (tag i (ss ! i))
              \<and> ts ! i = cleaned_output (ucd E) (c_glossary C) (b_outs b ! (i - b_start b))
              \<and> rs ! i = b_raws b ! (i - b_start b)"
    if i: "i < length ss" for i
  proof -
    from kept[OF i] obtain b where fc: "first_cover bs i = Some b"
      and t: "ts ! i = cleaned_output (ucd E) (c_glossary C) (b_outs b ! (i - b_start b))"
      and r: "rs ! i = b_raws b ! (i - b_start b)"
      by (auto simp: kept_translation_def kept_raw_def split: option.splits)
    from first_cover_Some[OF fc] have bin: "b \<in> set bs" and c: "covers b i" by simp_all
    from bin sh have shb: "shaped C ss b" by (simp add: list_all_iff)
    from bin full have fb: "length (b_outs b) = length (b_sents b)" by (simp add: list_all_iff)
    from bin an have ab: "answered E C b" by (simp add: list_all_iff)
    from c fb have k: "i - b_start b < length (b_sents b)" "b_start b \<le> i"
      by (auto simp: covers_def)
    from shb have ws: "b_sents b = window_sents ss (b_start b) (c_window C)"
      by (simp add: shaped_def)
    from assms(2) have "0 \<le> c_window C" by simp
    from window_sents_nth[OF this k(1)[unfolded ws]] k(2)
    have tg: "b_sents b ! (i - b_start b) = tag i (ss ! i)" by (simp add: ws)
    from k(1) fb have ko: "i - b_start b < length (b_outs b)" by simp
    from fb have le: "length (b_outs b) \<le> length (b_sents b)" by simp
    note nth = answered_nth[OF ab ko le, unfolded tg]
    from fc fb tg nth t r show ?thesis by (intro exI[of _ b]) simp
  qed
  have tok: "list_all (\<lambda>b. b_tokens b =
                    concat (map (\<lambda>(k, s). map (Pair (b_start b + k))
                                           (backend_texts E C (b_requests b + k) s))
                              (enumerate 0 (b_sents b)))) bs"
    unfolding list_all_iff
  proof (intro ballI)
    fix b assume bin: "b \<in> set bs"
    with full have fb: "length (b_outs b) = length (b_sents b)" by (simp add: list_all_iff)
    from bin an have "answered E C b" by (simp add: list_all_iff)
    then show "b_tokens b =
                    concat (map (\<lambda>(k, s). map (Pair (b_start b + k))
                                           (backend_texts E C (b_requests b + k) s))
                              (enumerate 0 (b_sents b)))"
      unfolding answered_def fb by simp
  qed
  have bound: "list_all (\<lambda>b. list_all (\<lambda>(j, t). b_start b \<le> j
                                    \<and> j < b_start b + length (b_sents b)) (b_tokens b)) bs"
    unfolding list_all_iff
  proof (intro ballI)
    fix b x assume "b \<in> set bs" and x: "x \<in> set (b_tokens b)"
    with sh have "shaped C ss b" by (simp add: list_all_iff)
    with x show "case x of (j, t) \<Rightarrow> b_start b \<le> j \<and> j < b_start b + length (b_sents b)"
      unfolding shaped_def list_all_iff by fast
  qed
  from el have el': "\<forall>i. i < length ss \<longrightarrow>
           (\<exists>b. first_cover bs i = Some b
              \<and> length (b_outs b) = length (b_sents b)
              \<and> b_sents b ! (i - b_start b) = tag i (ss ! i)
              \<and> b_raws b ! (i - b_start b)
                   = backend_raw E C (b_requests b + (i - b_start b)) (tag i (ss ! i))
              \<and> b_outs b ! (i - b_start b)
                   = backend_out E C (b_requests b + (i - b_start b)) (tag i (ss ! i))
              \<and> ts ! i = cleaned_output (ucd E) (c_glossary C) (b_outs b ! (i - b_start b))
              \<and> rs ! i = b_raws b ! (i - b_start b))" by blast
  show ?thesis
    by (intro exI[of _ ts] exI[of _ ups] exI[of _ rs] exI[of _ w'] exI[of _ bs] conjI)
       (rule res len b inp' nu el' tk tok bound)+
qed

text \<open>
  A run with a pause at its start, over Ollama with a token callback: the second
  sentence is translated in both windows, at the local index 1 of the window at 0 and at
  the local index 0 of the window at 1, and its token callbacks carry the index 1 both
  times.
\<close>

theorem aligned_output_witness:
  "uninterrupted resumed_env \<and> 1 \<le> c_window token_args \<and> 0 \<le> c_overlap token_args
   \<and> c_overlap token_args < c_window token_args
   \<and> translate_with_context resumed_env token_args [u ''a'', u ''b''] fresh
       = Some (Inr ([u ''x'', u ''x''], [(u ''Foo'', u ''Baz'')],
                    [foo_answer 0, foo_answer 1]), token_world)
   \<and> tokens token_world = [(0, u ''x''), (1, u ''x''), (1, u ''x'')]
   \<and> (\<exists>bs. batches token_world = batches fresh @ bs
         \<and> inputs token_world = inputs fresh @ concat (map b_sents bs)
         \<and> tokens token_world = tokens fresh @ concat (map b_tokens bs)
         \<and> list_all (\<lambda>b. b_tokens b =
                    concat (map (\<lambda>(k, s). map (Pair (b_start b + k))
                                   (backend_texts resumed_env token_args (b_requests b + k) s))
                              (enumerate 0 (b_sents b)))) bs)"
proof -
  have h: "1 \<le> c_window token_args" "0 \<le> c_overlap token_args"
    "c_overlap token_args < c_window token_args"
    by (simp_all add: token_args_def overlap_args_def)
  have t: "tokens token_world = [(0, u ''x''), (1, u ''x''), (1, u ''x'')]"
    by (simp add: token_world_def)
  from aligned_output[OF uninterrupted_resumed h, where ss = "[u ''a'', u ''b'']" and w = fresh]
  obtain ts ups rs w' bs where
    run: "translate_with_context resumed_env token_args [u ''a'', u ''b''] fresh
            = Some (Inr (ts, ups, rs), w')"
    and b: "batches w' = batches fresh @ bs"
    and i: "inputs w' = inputs fresh @ concat (map b_sents bs)"
    and tk: "tokens w' = tokens fresh @ concat (map b_tokens bs)"
    and ex: "list_all (\<lambda>b. b_tokens b =
                    concat (map (\<lambda>(k, s). map (Pair (b_start b + k))
                                   (backend_texts resumed_env token_args (b_requests b + k) s))
                              (enumerate 0 (b_sents b)))) bs"
    by blast
  from run have w': "w' = token_world" unfolding token_run by simp
  from b i tk ex have "\<exists>bs. batches token_world = batches fresh @ bs
         \<and> inputs token_world = inputs fresh @ concat (map b_sents bs)
         \<and> tokens token_world = tokens fresh @ concat (map b_tokens bs)
         \<and> list_all (\<lambda>b. b_tokens b =
                    concat (map (\<lambda>(k, s). map (Pair (b_start b + k))
                                   (backend_texts resumed_env token_args (b_requests b + k) s))
                              (enumerate 0 (b_sents b)))) bs"
    unfolding w' by blast
  with uninterrupted_resumed h token_run t show ?thesis by blast
qed

text \<open>
  The claim as stated admits a negative overlap: with window 2 and overlap -1 the step is
  3, the only window over three sentences covers the indices 0 and 1, and the assembly
  raises \<^verbatim>\<open>KeyError(2)\<close>.
\<close>

theorem negative_overlap_leaves_gap:
  "uninterrupted plain_env \<and> 1 \<le> c_window gap_args \<and> c_overlap gap_args < c_window gap_args
   \<and> returned (translate_with_context plain_env gap_args [u ''a'', u ''b'', u ''c''] fresh)
       = Some (Inl (KeyError 2))"
  using uninterrupted_plain gap_run by (simp add: gap_args_def overlap_args_def)

section \<open>The windowed translator: first write wins\<close>

text \<open>
  C3: the loop that stores the outputs of a window never changes an entry that is
  present: after it, an index maps to what it mapped to before, and only an index that
  was absent and lies in the window maps to the cleaned output (or the raw response) the
  window has for it. For a run that returns, the translation and the raw response at
  every index are those of the first logged window that covers the index.
\<close>

theorem first_write_wins:
  "fst (merge_outputs U g start idx zs (tr, rm)) i =
     (case tr i of
        Some v \<Rightarrow> Some v
      | None \<Rightarrow> if start + idx \<le> i \<and> i < start + idx + length zs
                then Some (cleaned_output U g (fst (zs ! (i - (start + idx)))))
                else None)
   \<and> snd (merge_outputs U g start idx zs (tr, rm)) i =
     (case rm i of
        Some v \<Rightarrow> Some v
      | None \<Rightarrow> if start + idx \<le> i \<and> i < start + idx + length zs
                then Some (snd (zs ! (i - (start + idx))))
                else None)
   \<and> (translate_with_context E C ss w = Some (Inr (ts, ups, rs), w') \<longrightarrow>
        (\<exists>bs. batches w' = batches w @ bs
           \<and> (\<forall>j. j < length ss \<longrightarrow>
                 Some (ts ! j) = kept_translation (ucd E) (c_glossary C) bs j
                 \<and> Some (rs ! j) = kept_raw bs j)))"
proof -
  obtain tr' rm' where m: "merge_outputs U g start idx zs (tr, rm) = (tr', rm')"
    by (cases "merge_outputs U g start idx zs (tr, rm)")
  from merge_outputs_lookup[OF m, of i] m
  have a: "fst (merge_outputs U g start idx zs (tr, rm)) i =
     (case tr i of
        Some v \<Rightarrow> Some v
      | None \<Rightarrow> if start + idx \<le> i \<and> i < start + idx + length zs
                then Some (cleaned_output U g (fst (zs ! (i - (start + idx)))))
                else None)"
    and b: "snd (merge_outputs U g start idx zs (tr, rm)) i =
     (case rm i of
        Some v \<Rightarrow> Some v
      | None \<Rightarrow> if start + idx \<le> i \<and> i < start + idx + length zs
                then Some (snd (zs ! (i - (start + idx))))
                else None)" by simp_all
  have c: "\<exists>bs. batches w' = batches w @ bs
           \<and> (\<forall>j. j < length ss \<longrightarrow>
                 Some (ts ! j) = kept_translation (ucd E) (c_glossary C) bs j
                 \<and> Some (rs ! j) = kept_raw bs j)"
    if "translate_with_context E C ss w = Some (Inr (ts, ups, rs), w')"
    using twc_explained[OF that] by blast
  from a b c show ?thesis by blast
qed

theorem first_write_wins_witness:
  "translate_with_context plain_env overlap_args [u ''a'', u ''b''] fresh
     = Some (Inr ([u ''a#0'', u ''b#1''], [], [u ''[0] a#0'', u ''[1] b#1'']), overlap_world)
   \<and> map b_outs (batches overlap_world) = [[u ''[0] a#0'', u ''[1] b#1''], [u ''[1] b#2'']]
   \<and> (\<exists>bs. batches overlap_world = batches fresh @ bs
          \<and> (\<forall>j. j < length [u ''a'', u ''b''] \<longrightarrow>
                Some ([u ''a#0'', u ''b#1''] ! j)
                   = kept_translation (ucd plain_env) (c_glossary overlap_args) bs j
                \<and> Some ([u ''[0] a#0'', u ''[1] b#1''] ! j) = kept_raw bs j))"
proof -
  have o: "map b_outs (batches overlap_world) = [[u ''[0] a#0'', u ''[1] b#1''], [u ''[1] b#2'']]"
    by (simp add: overlap_world_def)
  from first_write_wins[where E = plain_env and C = overlap_args
      and ss = "[u ''a'', u ''b'']" and w = fresh and ts = "[u ''a#0'', u ''b#1'']"
      and ups = "[]" and rs = "[u ''[0] a#0'', u ''[1] b#1'']" and w' = overlap_world]
    overlap_run
  have "\<exists>bs. batches overlap_world = batches fresh @ bs
          \<and> (\<forall>j. j < length [u ''a'', u ''b''] \<longrightarrow>
                Some ([u ''a#0'', u ''b#1''] ! j)
                   = kept_translation (ucd plain_env) (c_glossary overlap_args) bs j
                \<and> Some ([u ''[0] a#0'', u ''[1] b#1''] ! j) = kept_raw bs j)"
    by blast
  with overlap_run o show ?thesis by blast
qed

section \<open>The merge of glossary updates\<close>

text \<open>
  C4, amended: merging updates into an update set is \<^verbatim>\<open>dict.update\<close>: a key that is
  absent is added and a key that is present is overwritten, so a lookup finds the last
  item of the updates with that key and falls back to the target only when there is
  none. The update set \<^verbatim>\<open>translate_with_ollama\<close> returns for a batch is the merge, in this
  way and in sentence order, of the updates read from the raw responses of its
  sentences. The update set a run of \<^verbatim>\<open>translate_with_context\<close> returns is the merge, in
  this way and in window order, of the update sets of its windows, each of which is the
  merge over the sentences of the window. So when a term is discovered in two sentences
  or in two windows, the later target is returned.
\<close>

theorem updates_last_writer_wins:
  "map_of (dict_update target updates) k =
     (case map_of (rev updates) k of Some v \<Rightarrow> Some v | None \<Rightarrow> map_of target k)
   \<and> (translate_with_ollama E A sents w0 = Some (Inr (outs, new_terms, raws), w1) \<longrightarrow>
        new_terms =
          fold (\<lambda>raw d. dict_update d
                  (snd (parse_translation_and_glossary (ucd E) raw (o_glossary A)
                          (o_start_mark A) (o_end_mark A)))) raws [])
   \<and> (translate_with_context E C ss w = Some (Inr (ts, ups, rs), w') \<longrightarrow>
        (\<exists>bs. batches w' = batches w @ bs
           \<and> ups = fold (\<lambda>b d. dict_update d (b_updates b)) bs []
           \<and> list_all (\<lambda>b. b_updates b =
                fold (\<lambda>raw d. dict_update d (raw_updates E C raw)) (b_raws b) []) bs))"
proof -
  have a: "new_terms =
          fold (\<lambda>raw d. dict_update d
                  (snd (parse_translation_and_glossary (ucd E) raw (o_glossary A)
                          (o_start_mark A) (o_end_mark A)))) raws []"
    if "translate_with_ollama E A sents w0 = Some (Inr (outs, new_terms, raws), w1)"
    using ollama_loop_exact[OF that[unfolded translate_with_ollama_def]] by auto
  have b: "\<exists>bs. batches w' = batches w @ bs
           \<and> ups = fold (\<lambda>b d. dict_update d (b_updates b)) bs []
           \<and> list_all (\<lambda>b. b_updates b =
                fold (\<lambda>raw d. dict_update d (raw_updates E C raw)) (b_raws b) []) bs"
    if run: "translate_with_context E C ss w = Some (Inr (ts, ups, rs), w')"
  proof -
    from twc_explained[OF run] obtain bs where bs: "batches w' = batches w @ bs"
      and u: "ups = fold (\<lambda>b d. dict_update d (b_updates b)) bs []" by blast
    from twc_requests[OF run] bs have "list_all (answered E C) bs"
      unfolding requests_explained_def by auto
    then have "list_all (\<lambda>b. b_updates b =
                fold (\<lambda>raw d. dict_update d (raw_updates E C raw)) (b_raws b) []) bs"
      unfolding list_all_iff answered_def by blast
    with bs u show ?thesis by blast
  qed
  from a b dict_update_lookup[of target updates k] show ?thesis by blast
qed

text \<open>
  One window of two sentences over Ollama: the first response names "Foo" as "Bar", the
  second as "Baz", and the batch and the run return "Baz".
\<close>

theorem updates_last_writer_wins_witness:
  "translate_with_ollama plain_env batch_call_args [u ''[0] a'', u ''[1] b''] fresh
     = Some (Inr ([u ''x'', u ''x''], [(u ''Foo'', u ''Baz'')], [foo_answer 0, foo_answer 1]),
             batch_world\<lparr>batches := []\<rparr>)
   \<and> [(u ''Foo'', u ''Baz'')] =
          fold (\<lambda>raw d. dict_update d
                  (snd (parse_translation_and_glossary (ucd plain_env) raw
                          (o_glossary batch_call_args) (o_start_mark batch_call_args)
                          (o_end_mark batch_call_args))))
            [foo_answer 0, foo_answer 1] []
   \<and> translate_with_context plain_env batch_args [u ''a'', u ''b''] fresh
     = Some (Inr ([u ''x'', u ''x''], [(u ''Foo'', u ''Baz'')], [foo_answer 0, foo_answer 1]),
             batch_world)
   \<and> (\<exists>bs. batches batch_world = batches fresh @ bs
          \<and> [(u ''Foo'', u ''Baz'')] = fold (\<lambda>b d. dict_update d (b_updates b)) bs []
          \<and> list_all (\<lambda>b. b_updates b =
                fold (\<lambda>raw d. dict_update d (raw_updates plain_env batch_args raw))
                  (b_raws b) []) bs)"
proof -
  note inst = updates_last_writer_wins[where E = plain_env and A = batch_call_args
      and sents = "[u ''[0] a'', u ''[1] b'']" and ?w0.0 = fresh
      and outs = "[u ''x'', u ''x'']" and new_terms = "[(u ''Foo'', u ''Baz'')]"
      and raws = "[foo_answer 0, foo_answer 1]" and ?w1.0 = "batch_world\<lparr>batches := []\<rparr>"
      and C = batch_args and ss = "[u ''a'', u ''b'']" and w = fresh
      and ts = "[u ''x'', u ''x'']" and ups = "[(u ''Foo'', u ''Baz'')]"
      and rs = "[foo_answer 0, foo_answer 1]" and w' = batch_world]
  from inst batch_call have 1: "[(u ''Foo'', u ''Baz'')] =
          fold (\<lambda>raw d. dict_update d
                  (snd (parse_translation_and_glossary (ucd plain_env) raw
                          (o_glossary batch_call_args) (o_start_mark batch_call_args)
                          (o_end_mark batch_call_args))))
            [foo_answer 0, foo_answer 1] []"
    by blast
  from inst batch_run have 2: "\<exists>bs. batches batch_world = batches fresh @ bs
          \<and> [(u ''Foo'', u ''Baz'')] = fold (\<lambda>b d. dict_update d (b_updates b)) bs []
          \<and> list_all (\<lambda>b. b_updates b =
                fold (\<lambda>raw d. dict_update d (raw_updates plain_env batch_args raw))
                  (b_raws b) []) bs"
    by blast
  from batch_call batch_run 1 2 show ?thesis by blast
qed

text \<open>
  The claim as stated fails: the first window discovers "Foo" as "Bar", the second as
  "Baz", and the returned updates map "Foo" to "Baz".
\<close>

theorem second_discovery_replaces_first:
  "logged_updates (translate_with_context plain_env two_window_args [u ''a'', u ''b''] fresh)
     = [[(u ''Foo'', u ''Bar'')], [(u ''Foo'', u ''Baz'')]]
   \<and> map_of (returned_updates
        (translate_with_context plain_env two_window_args [u ''a'', u ''b''] fresh)) (u ''Foo'')
       = Some (u ''Baz'')
   \<and> map_of (returned_updates
        (translate_with_context plain_env two_window_args [u ''a'', u ''b''] fresh)) (u ''Foo'')
       \<noteq> Some (u ''Bar'')"
  unfolding two_window_run
  by (simp add: logged_updates_def returned_updates_def two_window_world_def u_def)

section \<open>The glossary in the prompts\<close>

text \<open>
  C5, amended: the windows are processed one after the other, and the prompts of a run
  over Ollama that returns are, window after window and sentence after sentence, the
  prompts built from the glossary the caller passed: no prompt of a later window embeds
  the updates of an earlier window.
\<close>

theorem prompts_embed_caller_glossary:
  assumes "translate_with_context E C ss w = Some (Inr (ts, ups, rs), w')"
    and "c_use_ollama C"
  shows "\<exists>bs. batches w' = batches w @ bs
           \<and> prompts w' = prompts w @ concat (map (batch_prompts C) bs)"
  using twc_explained[OF assms(1)] assms(2) by auto

theorem prompts_embed_caller_glossary_witness:
  "translate_with_context plain_env two_window_args [u ''a'', u ''b''] fresh
     = Some (Inr ([u ''x'', u ''x''], [(u ''Foo'', u ''Baz'')], [foo_answer 0, foo_answer 1]),
             two_window_world)
   \<and> c_use_ollama two_window_args
   \<and> (\<exists>bs. batches two_window_world = batches fresh @ bs
          \<and> prompts two_window_world
               = prompts fresh @ concat (map (batch_prompts two_window_args) bs))"
proof -
  have o: "c_use_ollama two_window_args" by (simp add: two_window_args_def)
  from prompts_embed_caller_glossary[OF two_window_run o] two_window_run o
  show ?thesis by blast
qed

text \<open>
  The claim as stated fails: the first window yields the update from "Foo" to "Bar",
  and the prompt of the second window still embeds the empty glossary.
\<close>

theorem later_prompt_lacks_earlier_update:
  "logged_updates (translate_with_context plain_env two_window_args [u ''a'', u ''b''] fresh)
     = [[(u ''Foo'', u ''Bar'')], [(u ''Foo'', u ''Baz'')]]
   \<and> sent_prompts (translate_with_context plain_env two_window_args [u ''a'', u ''b''] fresh)
     = [make_prompt (glossary_str []) (u ''en'') START_MARK END_MARK (u ''[0] a''),
        make_prompt (glossary_str []) (u ''en'') START_MARK END_MARK (u ''[1] b'')]
   \<and> sent_prompts (translate_with_context plain_env two_window_args [u ''a'', u ''b''] fresh) ! 1
     \<noteq> make_prompt (glossary_str [(u ''Foo'', u ''Bar'')]) (u ''en'') START_MARK END_MARK
          (u ''[1] b'')"
proof -
  have g: "glossary_str [] = []" by (simp add: glossary_str_def)
  have h: "glossary_str [(u ''Foo'', u ''Bar'')] \<noteq> []" by (simp add: glossary_str_def u_def)
  have d: "make_prompt [] (u ''en'') START_MARK END_MARK (u ''[1] b'')
           \<noteq> make_prompt (glossary_str [(u ''Foo'', u ''Bar'')]) (u ''en'') START_MARK END_MARK
          (u ''[1] b'')"
    using h by (simp add: make_prompt_def)
  show ?thesis
    unfolding two_window_run
    using d by (simp add: logged_updates_def sent_prompts_def two_window_world_def g)
qed

section \<open>The sliding window\<close>

text \<open>
  C6: in a run that is not cancelled, in which every pause ends and every request is
  answered, over a non-empty sentence list, the windows start at the multiples of
  \<open>step = max 1 (window - overlap)\<close> below the number of sentences. Each window is handed
  to the backend as the tagged slice from its start, of the sentences \<open>start\<close> up to
  \<open>start + window\<close> or the end of the list, and every sentence of it is translated: the
  sentences that went to the backend, one request each, are those of the windows in
  order. When the overlap is not negative and below a window of at least 1, the run
  returns as many translations and raw responses as there are sentences. For 120 sentences, window 50 and overlap 10 there are exactly the three windows
  at 0, 40 and 80, of the sentences 0 to 49, 40 to 89 and 80 to 119; they cover the
  indices 0 to 119, and the run returns 120 translations.
\<close>

theorem sliding_windows:
  assumes "uninterrupted E" and "ss \<noteq> []"
  shows "\<exists>r w' bs. translate_with_context E C ss w = Some (r, w')
     \<and> batches w' = batches w @ bs
     \<and> step_of C = nat (max 1 (c_window C - c_overlap C))
     \<and> map b_start bs
         = map (\<lambda>k. k * step_of C) [0..<(length ss + step_of C - 1) div step_of C]
     \<and> list_all (\<lambda>b. b_start b < length ss
                      \<and> b_sents b = window_sents ss (b_start b) (c_window C)
                      \<and> length (b_outs b) = length (b_sents b)) bs
     \<and> inputs w' = inputs w @ concat (map b_sents bs)
     \<and> requests w' = requests w + length (concat (map b_sents bs))
     \<and> (0 \<le> c_window C \<longrightarrow>
          list_all (\<lambda>b. b_sents b
                          = map (\<lambda>i. tag i (ss ! i))
                              [b_start b..<min (length ss) (b_start b + nat (c_window C))]) bs)
     \<and> (1 \<le> c_window C \<and> 0 \<le> c_overlap C \<and> c_overlap C < c_window C \<longrightarrow>
          (\<exists>ts ups rs. r = Inr (ts, ups, rs) \<and> length ts = length ss
                        \<and> length rs = length ss))
     \<and> (length ss = 120 \<and> c_window C = 50 \<and> c_overlap C = 10 \<longrightarrow>
          map b_start bs = [0, 40, 80]
          \<and> map b_sents bs = [map (\<lambda>i. tag i (ss ! i)) [0..<50],
                               map (\<lambda>i. tag i (ss ! i)) [40..<90],
                               map (\<lambda>i. tag i (ss ! i)) [80..<120]]
          \<and> inputs w' = inputs w @ map (\<lambda>i. tag i (ss ! i)) ([0..<50] @ [40..<90] @ [80..<120])
          \<and> (\<Union>b \<in> set bs. {b_start b..<b_start b + length (b_sents b)}) = {0..<120}
          \<and> (\<exists>ts ups rs. r = Inr (ts, ups, rs) \<and> length ts = 120 \<and> length rs = 120))"
proof -
  let ?starts = "range_from 0 (length ss) (step_of C)"
  let ?tagged = "\<lambda>i. tag i (ss ! i)"
  from twc_windows_sent[OF assms, of C w] obtain r w' bs where
    run: "translate_with_context E C ss w = Some (r, w')"
    and b: "batches w' = batches w @ bs"
    and s: "map b_start bs = ?starts" and sh: "list_all (shaped C ss) bs"
    and full: "list_all (\<lambda>b. length (b_outs b) = length (b_sents b)) bs"
    and c_in: "inputs w' = inputs w @ concat (map b_sents bs)"
    and c_rq: "requests w' = requests w + length (concat (map b_sents bs))"
    by blast
  from range_from_multiples[OF step_of_pos[of C], where a = 0 and n = "length ss"]
  have m: "?starts = map (\<lambda>k. k * step_of C) [0..<(length ss + step_of C - 1) div step_of C]"
    by simp
  have lt: "b_start b < length ss" if "b \<in> set bs" for b
  proof -
    from that have "b_start b \<in> set (map b_start bs)" by simp
    with s show ?thesis by (simp add: range_from_less)
  qed
  have ws: "b_sents b = window_sents ss (b_start b) (c_window C)" if "b \<in> set bs" for b
    using that sh by (simp add: list_all_iff shaped_def)
  have c4: "list_all (\<lambda>b. b_start b < length ss
                      \<and> b_sents b = window_sents ss (b_start b) (c_window C)
                      \<and> length (b_outs b) = length (b_sents b)) bs"
    using lt ws full by (simp add: list_all_iff)
  have c5: "list_all (\<lambda>b. b_sents b
                          = map ?tagged
                              [b_start b..<min (length ss) (b_start b + nat (c_window C))]) bs"
    if "0 \<le> c_window C"
    using ws window_sents_map[OF that] by (simp add: list_all_iff)
  have c7: "\<exists>ts ups rs. r = Inr (ts, ups, rs) \<and> length ts = length ss \<and> length rs = length ss"
    if a: "1 \<le> c_window C \<and> 0 \<le> c_overlap C \<and> c_overlap C < c_window C"
  proof -
    from a have a': "1 \<le> c_window C" "0 \<le> c_overlap C" "c_overlap C < c_window C"
      by simp_all
    from twc_total[OF assms(1) a', of ss w] run obtain ts ups rs where
      r: "r = Inr (ts, ups, rs)" by auto
    from twc_explained[OF run[unfolded r]] have "length ts = length ss" "length rs = length ss"
      by auto
    with r show ?thesis by blast
  qed
  have c6: "map b_start bs = [0, 40, 80]
          \<and> map b_sents bs = [map ?tagged [0..<50], map ?tagged [40..<90],
                               map ?tagged [80..<120]]
          \<and> inputs w' = inputs w @ map ?tagged ([0..<50] @ [40..<90] @ [80..<120])
          \<and> (\<Union>b \<in> set bs. {b_start b..<b_start b + length (b_sents b)}) = {0..<120}
          \<and> (\<exists>ts ups rs. r = Inr (ts, ups, rs) \<and> length ts = 120 \<and> length rs = 120)"
    if ex: "length ss = 120 \<and> c_window C = 50 \<and> c_overlap C = 10"
  proof -
    from ex have st: "step_of C = 40" by (simp add: step_of_def)
    have "[0..<(120 + 40 - 1) div 40] = [0, 1, 2]" by (simp add: upt_rec)
    with s m ex st have starts: "map b_start bs = [0, 40, 80]" by simp
    then obtain b0 b1 b2 where bs: "bs = [b0, b1, b2]"
      and st0: "b_start b0 = 0" "b_start b1 = 40" "b_start b2 = 80"
      by (auto simp: map_eq_Cons_conv)
    from ex have "0 \<le> c_window C" by simp
    from c5[OF this] have "b_sents b0 = map ?tagged [b_start b0..<min (length ss) (b_start b0 + nat (c_window C))]"
      "b_sents b1 = map ?tagged [b_start b1..<min (length ss) (b_start b1 + nat (c_window C))]"
      "b_sents b2 = map ?tagged [b_start b2..<min (length ss) (b_start b2 + nat (c_window C))]"
      unfolding bs by simp_all
    moreover have "min (120::nat) (0 + nat 50) = 50" "min (120::nat) (40 + nat 50) = 90"
      "min (120::nat) (80 + nat 50) = 120" by simp_all
    ultimately have sents: "b_sents b0 = map ?tagged [0..<50]" "b_sents b1 = map ?tagged [40..<90]"
      "b_sents b2 = map ?tagged [80..<120]"
      using ex st0 by (simp_all only:)
    then have len: "length (b_sents b0) = 50" "length (b_sents b1) = 50" "length (b_sents b2) = 40"
      by (simp_all only: length_map length_upt)
    have cov: "(\<Union>b \<in> set bs. {b_start b..<b_start b + length (b_sents b)}) = {0..<120}"
      unfolding bs using st0 len by auto
    have ms: "map b_sents bs = [map ?tagged [0..<50], map ?tagged [40..<90],
                               map ?tagged [80..<120]]"
      unfolding bs using sents by (simp only: list.map)
    have inp: "inputs w' = inputs w @ map ?tagged ([0..<50] @ [40..<90] @ [80..<120])"
      unfolding c_in ms by (simp only: concat.simps map_append append_Nil2 append_assoc)
    from ex have "1 \<le> c_window C \<and> 0 \<le> c_overlap C \<and> c_overlap C < c_window C" by simp
    from c7[OF this] ex
    have "\<exists>ts ups rs. r = Inr (ts, ups, rs) \<and> length ts = 120 \<and> length rs = 120"
      by simp
    with starts ms inp cov show ?thesis by blast
  qed
  have c2: "step_of C = nat (max 1 (c_window C - c_overlap C))" by (simp add: step_of_def)
  from s m have c3: "map b_start bs
         = map (\<lambda>k. k * step_of C) [0..<(length ss + step_of C - 1) div step_of C]"
    by simp
  from c5 have c5': "0 \<le> c_window C \<longrightarrow>
          list_all (\<lambda>b. b_sents b
                          = map ?tagged
                              [b_start b..<min (length ss) (b_start b + nat (c_window C))]) bs"
    by blast
  from c7 have c7': "1 \<le> c_window C \<and> 0 \<le> c_overlap C \<and> c_overlap C < c_window C \<longrightarrow>
          (\<exists>ts ups rs. r = Inr (ts, ups, rs) \<and> length ts = length ss
                        \<and> length rs = length ss)"
    by blast
  from c6 have c6': "length ss = 120 \<and> c_window C = 50 \<and> c_overlap C = 10 \<longrightarrow>
          map b_start bs = [0, 40, 80]
          \<and> map b_sents bs = [map ?tagged [0..<50], map ?tagged [40..<90],
                               map ?tagged [80..<120]]
          \<and> inputs w' = inputs w @ map ?tagged ([0..<50] @ [40..<90] @ [80..<120])
          \<and> (\<Union>b \<in> set bs. {b_start b..<b_start b + length (b_sents b)}) = {0..<120}
          \<and> (\<exists>ts ups rs. r = Inr (ts, ups, rs) \<and> length ts = 120 \<and> length rs = 120)"
    by blast
  show ?thesis
    by (intro exI[of _ r] exI[of _ w'] exI[of _ bs] conjI)
       (rule run b c2 c3 c4 c_in c_rq c5' c7' c6')+
qed

text \<open>
  A run over 120 sentences with the default window and overlap, paused at its start and
  then resumed.
\<close>

theorem sliding_windows_witness:
  "uninterrupted resumed_env \<and> replicate 120 (u ''s'') \<noteq> []
   \<and> (\<exists>r w' bs. translate_with_context resumed_env default_args (replicate 120 (u ''s'')) fresh
          = Some (r, w')
        \<and> batches w' = batches fresh @ bs
        \<and> map b_start bs = [0, 40, 80]
        \<and> map b_sents bs = [map (\<lambda>i. tag i (replicate 120 (u ''s'') ! i)) [0..<50],
                             map (\<lambda>i. tag i (replicate 120 (u ''s'') ! i)) [40..<90],
                             map (\<lambda>i. tag i (replicate 120 (u ''s'') ! i)) [80..<120]]
        \<and> inputs w' = map (\<lambda>i. tag i (replicate 120 (u ''s'') ! i))
                         ([0..<50] @ [40..<90] @ [80..<120])
        \<and> requests w' = 140
        \<and> (\<exists>ts ups rs. r = Inr (ts, ups, rs) \<and> length ts = 120 \<and> length rs = 120))"
proof -
  let ?ss = "replicate 120 (u ''s'')"
  let ?tagged = "\<lambda>i. tag i (?ss ! i)"
  have n: "?ss \<noteq> []" by simp
  have d: "length ?ss = 120 \<and> c_window default_args = 50 \<and> c_overlap default_args = 10"
    by (simp add: default_args_def)
  from sliding_windows[OF uninterrupted_resumed n, where C = default_args and w = fresh]
  have "\<exists>r w' bs. translate_with_context resumed_env default_args ?ss fresh = Some (r, w')
        \<and> batches w' = batches fresh @ bs
        \<and> map b_start bs = [0, 40, 80]
        \<and> map b_sents bs = [map ?tagged [0..<50], map ?tagged [40..<90],
                             map ?tagged [80..<120]]
        \<and> inputs w' = map ?tagged ([0..<50] @ [40..<90] @ [80..<120])
        \<and> requests w' = 140
        \<and> (\<exists>ts ups rs. r = Inr (ts, ups, rs) \<and> length ts = 120 \<and> length rs = 120)"
  proof (elim exE conjE)
    fix r w' bs
    assume 1: "translate_with_context resumed_env default_args ?ss fresh = Some (r, w')"
      and 2: "batches w' = batches fresh @ bs"
      and 3: "requests w' = requests fresh + length (concat (map b_sents bs))"
      and 4: "length ?ss = 120 \<and> c_window default_args = 50 \<and> c_overlap default_args = 10 \<longrightarrow>
          map b_start bs = [0, 40, 80]
          \<and> map b_sents bs = [map ?tagged [0..<50], map ?tagged [40..<90],
                               map ?tagged [80..<120]]
          \<and> inputs w' = inputs fresh @ map ?tagged ([0..<50] @ [40..<90] @ [80..<120])
          \<and> (\<Union>b \<in> set bs. {b_start b..<b_start b + length (b_sents b)}) = {0..<120}
          \<and> (\<exists>ts ups rs. r = Inr (ts, ups, rs) \<and> length ts = 120 \<and> length rs = 120)"
    from 4 d have s: "map b_start bs = [0, 40, 80]"
      and ms: "map b_sents bs = [map ?tagged [0..<50], map ?tagged [40..<90],
                               map ?tagged [80..<120]]"
      and inp: "inputs w' = inputs fresh @ map ?tagged ([0..<50] @ [40..<90] @ [80..<120])"
      and res: "\<exists>ts ups rs. r = Inr (ts, ups, rs) \<and> length ts = 120 \<and> length rs = 120"
      by blast+
    have "length (concat [map ?tagged [0..<50], map ?tagged [40..<90], map ?tagged [80..<120]])
            = length [0..<50::nat] + (length [40..<90::nat] + length [80..<120::nat])"
      by (simp only: concat.simps length_append length_map list.size add_0_right)
    also have "\<dots> = 140" by (simp only: length_upt)
    finally have "length (concat (map b_sents bs)) = 140" unfolding ms .
    with 3 have rq: "requests w' = 140" by (simp add: fresh_def)
    have "inputs fresh = []" by (simp add: fresh_def)
    with inp have inp': "inputs w' = map ?tagged ([0..<50] @ [40..<90] @ [80..<120])"
      by (simp only: append_Nil)
    from 1 2 s ms inp' rq res show ?thesis
      by (intro exI[of _ r] exI[of _ w'] exI[of _ bs] conjI)
  qed
  with uninterrupted_resumed n show ?thesis by blast
qed

end
